theory Spec2Isabelle
  imports Main "HOL-Library.List_Lexorder" "HOL-Library.Product_Lexorder" "HOL-Library.AList"
    "HOL-Library.Multiset"
    "HOL-Library.Code_Target_Nat"
begin

section \<open>Python strings\<close>

text \<open>
  A Python \<open>str\<close> is a sequence of Unicode code points, so it is modelled as a list of
  natural numbers; \<open>len\<close> is \<open>length\<close>, \<open>==\<close> is equality of lists, and \<open><\<close> on
  strings is the lexicographic order on code points, which is the order on lists of
  \<open>HOL-Library.List_Lexorder\<close>.  A tuple is a product, compared componentwise from the
  left as in \<open>HOL-Library.Product_Lexorder\<close>.  ASCII literals of the script are written with
  \<open>str\<close>.
\<close>

type_synonym codepoint = nat
type_synonym pystr = "codepoint list"

definition str :: "string \<Rightarrow> pystr" where
  "str s = map of_char s"

text \<open>\<open>value or ""\<close> for a value that is a \<open>str\<close> or \<open>None\<close>.\<close>

definition or_empty :: "pystr option \<Rightarrow> pystr" where
  "or_empty v = (case v of None \<Rightarrow> [] | Some s \<Rightarrow> s)"

subsection \<open>Character tables\<close>

text \<open>
  The character classes and case mappings of the Unicode Character Database 14.0.0, as
  CPython 3.11 ships them.  A class is a list of closed ranges of code points.
\<close>

fun in_ranges :: "(codepoint \<times> codepoint) list \<Rightarrow> codepoint \<Rightarrow> bool" where
  "in_ranges [] c = False"
| "in_ranges ((lo, hi) # rs) c = ((lo \<le> c \<and> c \<le> hi) \<or> in_ranges rs c)"

text \<open>Code points for which \<open>str.isspace\<close> holds; these are what \<open>str.strip()\<close> removes.\<close>

definition whitespace_ranges :: "(codepoint \<times> codepoint) list" where
  "whitespace_ranges = [
   (0x9, 0xD), (0x1C, 0x20), (0x85, 0x85), (0xA0, 0xA0), (0x1680, 0x1680), (0x2000, 0x200A),
   (0x2028, 0x2029), (0x202F, 0x202F), (0x205F, 0x205F), (0x3000, 0x3000)]"

text \<open>
  Code points for which \<open>str.isdigit\<close> holds (Numeric_Type Decimal or Digit): the ASCII
  digits, the decimal digits of other scripts, and digit-like characters such as
  superscripts and circled digits.
\<close>

definition digit_ranges :: "(codepoint \<times> codepoint) list" where
  "digit_ranges = [
   (0x30, 0x39), (0xB2, 0xB3), (0xB9, 0xB9), (0x660, 0x669), (0x6F0, 0x6F9), (0x7C0, 0x7C9),
   (0x966, 0x96F), (0x9E6, 0x9EF), (0xA66, 0xA6F), (0xAE6, 0xAEF), (0xB66, 0xB6F), (0xBE6,
   0xBEF), (0xC66, 0xC6F), (0xCE6, 0xCEF), (0xD66, 0xD6F), (0xDE6, 0xDEF), (0xE50, 0xE59),
   (0xED0, 0xED9), (0xF20, 0xF29), (0x1040, 0x1049), (0x1090, 0x1099), (0x1369, 0x1371),
   (0x17E0, 0x17E9), (0x1810, 0x1819), (0x1946, 0x194F), (0x19D0, 0x19DA), (0x1A80, 0x1A89),
   (0x1A90, 0x1A99), (0x1B50, 0x1B59), (0x1BB0, 0x1BB9), (0x1C40, 0x1C49), (0x1C50, 0x1C59),
   (0x2070, 0x2070), (0x2074, 0x2079), (0x2080, 0x2089), (0x2460, 0x2468), (0x2474, 0x247C),
   (0x2488, 0x2490), (0x24EA, 0x24EA), (0x24F5, 0x24FD), (0x24FF, 0x24FF), (0x2776, 0x277E),
   (0x2780, 0x2788), (0x278A, 0x2792), (0xA620, 0xA629), (0xA8D0, 0xA8D9), (0xA900, 0xA909),
   (0xA9D0, 0xA9D9), (0xA9F0, 0xA9F9), (0xAA50, 0xAA59), (0xABF0, 0xABF9), (0xFF10, 0xFF19),
   (0x104A0, 0x104A9), (0x10A40, 0x10A43), (0x10D30, 0x10D39), (0x10E60, 0x10E68), (0x11052,
   0x1105A), (0x11066, 0x1106F), (0x110F0, 0x110F9), (0x11136, 0x1113F), (0x111D0, 0x111D9),
   (0x112F0, 0x112F9), (0x11450, 0x11459), (0x114D0, 0x114D9), (0x11650, 0x11659), (0x116C0,
   0x116C9), (0x11730, 0x11739), (0x118E0, 0x118E9), (0x11950, 0x11959), (0x11C50, 0x11C59),
   (0x11D50, 0x11D59), (0x11DA0, 0x11DA9), (0x16A60, 0x16A69), (0x16AC0, 0x16AC9), (0x16B50,
   0x16B59), (0x1D7CE, 0x1D7FF), (0x1E140, 0x1E149), (0x1E2F0, 0x1E2F9), (0x1E950, 0x1E959),
   (0x1F100, 0x1F10A), (0x1FBF0, 0x1FBF9)]"

text \<open>
  Code points for which \<open>str.isdecimal\<close> holds (General_Category Nd), the digits
  \<open>int()\<close> accepts.  Every range starts at a digit of value 0 and its length is a
  multiple of ten.
\<close>

definition decimal_ranges :: "(codepoint \<times> codepoint) list" where
  "decimal_ranges = [
   (0x30, 0x39), (0x660, 0x669), (0x6F0, 0x6F9), (0x7C0, 0x7C9), (0x966, 0x96F), (0x9E6,
   0x9EF), (0xA66, 0xA6F), (0xAE6, 0xAEF), (0xB66, 0xB6F), (0xBE6, 0xBEF), (0xC66, 0xC6F),
   (0xCE6, 0xCEF), (0xD66, 0xD6F), (0xDE6, 0xDEF), (0xE50, 0xE59), (0xED0, 0xED9), (0xF20,
   0xF29), (0x1040, 0x1049), (0x1090, 0x1099), (0x17E0, 0x17E9), (0x1810, 0x1819), (0x1946,
   0x194F), (0x19D0, 0x19D9), (0x1A80, 0x1A89), (0x1A90, 0x1A99), (0x1B50, 0x1B59), (0x1BB0,
   0x1BB9), (0x1C40, 0x1C49), (0x1C50, 0x1C59), (0xA620, 0xA629), (0xA8D0, 0xA8D9), (0xA900,
   0xA909), (0xA9D0, 0xA9D9), (0xA9F0, 0xA9F9), (0xAA50, 0xAA59), (0xABF0, 0xABF9), (0xFF10,
   0xFF19), (0x104A0, 0x104A9), (0x10D30, 0x10D39), (0x11066, 0x1106F), (0x110F0, 0x110F9),
   (0x11136, 0x1113F), (0x111D0, 0x111D9), (0x112F0, 0x112F9), (0x11450, 0x11459), (0x114D0,
   0x114D9), (0x11650, 0x11659), (0x116C0, 0x116C9), (0x11730, 0x11739), (0x118E0, 0x118E9),
   (0x11950, 0x11959), (0x11C50, 0x11C59), (0x11D50, 0x11D59), (0x11DA0, 0x11DA9), (0x16A60,
   0x16A69), (0x16AC0, 0x16AC9), (0x16B50, 0x16B59), (0x1D7CE, 0x1D7FF), (0x1E140, 0x1E149),
   (0x1E2F0, 0x1E2F9), (0x1E950, 0x1E959), (0x1FBF0, 0x1FBF9)]"

text \<open>
  Simple case mappings of the code points above U+007F, as runs
  \<open>(lo, hi, step, image of lo)\<close>: every \<open>step\<close>-th code point from \<open>lo\<close> to \<open>hi\<close> is
  mapped to the code point at the same offset from the image of \<open>lo\<close>.
\<close>

type_synonym case_run = "codepoint \<times> codepoint \<times> nat \<times> codepoint"

fun run_lookup :: "case_run list \<Rightarrow> codepoint \<Rightarrow> codepoint option" where
  "run_lookup [] c = None"
| "run_lookup ((lo, hi, step, img) # rs) c =
     (if lo \<le> c \<and> c \<le> hi \<and> (c - lo) mod step = 0 then Some (img + (c - lo))
      else run_lookup rs c)"

definition upper_runs :: "case_run list" where
  "upper_runs = [
   (0xB5, 0xB5, 1, 0x39C), (0xE0, 0xF6, 1, 0xC0), (0xF8, 0xFE, 1, 0xD8), (0xFF, 0xFF, 1,
   0x178), (0x101, 0x12F, 2, 0x100), (0x131, 0x131, 1, 0x49), (0x133, 0x137, 2, 0x132),
   (0x13A, 0x148, 2, 0x139), (0x14B, 0x177, 2, 0x14A), (0x17A, 0x17E, 2, 0x179), (0x17F,
   0x17F, 1, 0x53), (0x180, 0x180, 1, 0x243), (0x183, 0x185, 2, 0x182), (0x188, 0x188, 1,
   0x187), (0x18C, 0x18C, 1, 0x18B), (0x192, 0x192, 1, 0x191), (0x195, 0x195, 1, 0x1F6),
   (0x199, 0x199, 1, 0x198), (0x19A, 0x19A, 1, 0x23D), (0x19E, 0x19E, 1, 0x220), (0x1A1,
   0x1A5, 2, 0x1A0), (0x1A8, 0x1A8, 1, 0x1A7), (0x1AD, 0x1AD, 1, 0x1AC), (0x1B0, 0x1B0, 1,
   0x1AF), (0x1B4, 0x1B6, 2, 0x1B3), (0x1B9, 0x1B9, 1, 0x1B8), (0x1BD, 0x1BD, 1, 0x1BC),
   (0x1BF, 0x1BF, 1, 0x1F7), (0x1C5, 0x1C5, 1, 0x1C4), (0x1C6, 0x1C6, 1, 0x1C4), (0x1C8,
   0x1C8, 1, 0x1C7), (0x1C9, 0x1C9, 1, 0x1C7), (0x1CB, 0x1CB, 1, 0x1CA), (0x1CC, 0x1CC, 1,
   0x1CA), (0x1CE, 0x1DC, 2, 0x1CD), (0x1DD, 0x1DD, 1, 0x18E), (0x1DF, 0x1EF, 2, 0x1DE),
   (0x1F2, 0x1F2, 1, 0x1F1), (0x1F3, 0x1F3, 1, 0x1F1), (0x1F5, 0x1F5, 1, 0x1F4), (0x1F9,
   0x21F, 2, 0x1F8), (0x223, 0x233, 2, 0x222), (0x23C, 0x23C, 1, 0x23B), (0x23F, 0x240, 1,
   0x2C7E), (0x242, 0x242, 1, 0x241), (0x247, 0x24F, 2, 0x246), (0x250, 0x250, 1, 0x2C6F),
   (0x251, 0x251, 1, 0x2C6D), (0x252, 0x252, 1, 0x2C70), (0x253, 0x253, 1, 0x181), (0x254,
   0x254, 1, 0x186), (0x256, 0x257, 1, 0x189), (0x259, 0x259, 1, 0x18F), (0x25B, 0x25B, 1,
   0x190), (0x25C, 0x25C, 1, 0xA7AB), (0x260, 0x260, 1, 0x193), (0x261, 0x261, 1, 0xA7AC),
   (0x263, 0x263, 1, 0x194), (0x265, 0x265, 1, 0xA78D), (0x266, 0x266, 1, 0xA7AA), (0x268,
   0x268, 1, 0x197), (0x269, 0x269, 1, 0x196), (0x26A, 0x26A, 1, 0xA7AE), (0x26B, 0x26B, 1,
   0x2C62), (0x26C, 0x26C, 1, 0xA7AD), (0x26F, 0x26F, 1, 0x19C), (0x271, 0x271, 1, 0x2C6E),
   (0x272, 0x272, 1, 0x19D), (0x275, 0x275, 1, 0x19F), (0x27D, 0x27D, 1, 0x2C64), (0x280,
   0x280, 1, 0x1A6), (0x282, 0x282, 1, 0xA7C5), (0x283, 0x283, 1, 0x1A9), (0x287, 0x287, 1,
   0xA7B1), (0x288, 0x288, 1, 0x1AE), (0x289, 0x289, 1, 0x244), (0x28A, 0x28B, 1, 0x1B1),
   (0x28C, 0x28C, 1, 0x245), (0x292, 0x292, 1, 0x1B7), (0x29D, 0x29D, 1, 0xA7B2), (0x29E,
   0x29E, 1, 0xA7B0), (0x345, 0x345, 1, 0x399), (0x371, 0x373, 2, 0x370), (0x377, 0x377, 1,
   0x376), (0x37B, 0x37D, 1, 0x3FD), (0x3AC, 0x3AC, 1, 0x386), (0x3AD, 0x3AF, 1, 0x388),
   (0x3B1, 0x3C1, 1, 0x391), (0x3C2, 0x3C2, 1, 0x3A3), (0x3C3, 0x3CB, 1, 0x3A3), (0x3CC,
   0x3CC, 1, 0x38C), (0x3CD, 0x3CE, 1, 0x38E), (0x3D0, 0x3D0, 1, 0x392), (0x3D1, 0x3D1, 1,
   0x398), (0x3D5, 0x3D5, 1, 0x3A6), (0x3D6, 0x3D6, 1, 0x3A0), (0x3D7, 0x3D7, 1, 0x3CF),
   (0x3D9, 0x3EF, 2, 0x3D8), (0x3F0, 0x3F0, 1, 0x39A), (0x3F1, 0x3F1, 1, 0x3A1), (0x3F2,
   0x3F2, 1, 0x3F9), (0x3F3, 0x3F3, 1, 0x37F), (0x3F5, 0x3F5, 1, 0x395), (0x3F8, 0x3F8, 1,
   0x3F7), (0x3FB, 0x3FB, 1, 0x3FA), (0x430, 0x44F, 1, 0x410), (0x450, 0x45F, 1, 0x400),
   (0x461, 0x481, 2, 0x460), (0x48B, 0x4BF, 2, 0x48A), (0x4C2, 0x4CE, 2, 0x4C1), (0x4CF,
   0x4CF, 1, 0x4C0), (0x4D1, 0x52F, 2, 0x4D0), (0x561, 0x586, 1, 0x531), (0x10D0, 0x10FA, 1,
   0x1C90), (0x10FD, 0x10FF, 1, 0x1CBD), (0x13F8, 0x13FD, 1, 0x13F0), (0x1C80, 0x1C80, 1,
   0x412), (0x1C81, 0x1C81, 1, 0x414), (0x1C82, 0x1C82, 1, 0x41E), (0x1C83, 0x1C84, 1,
   0x421), (0x1C85, 0x1C85, 1, 0x422), (0x1C86, 0x1C86, 1, 0x42A), (0x1C87, 0x1C87, 1,
   0x462), (0x1C88, 0x1C88, 1, 0xA64A), (0x1D79, 0x1D79, 1, 0xA77D), (0x1D7D, 0x1D7D, 1,
   0x2C63), (0x1D8E, 0x1D8E, 1, 0xA7C6), (0x1E01, 0x1E95, 2, 0x1E00), (0x1E9B, 0x1E9B, 1,
   0x1E60), (0x1EA1, 0x1EFF, 2, 0x1EA0), (0x1F00, 0x1F07, 1, 0x1F08), (0x1F10, 0x1F15, 1,
   0x1F18), (0x1F20, 0x1F27, 1, 0x1F28), (0x1F30, 0x1F37, 1, 0x1F38), (0x1F40, 0x1F45, 1,
   0x1F48), (0x1F51, 0x1F57, 2, 0x1F59), (0x1F60, 0x1F67, 1, 0x1F68), (0x1F70, 0x1F71, 1,
   0x1FBA), (0x1F72, 0x1F75, 1, 0x1FC8), (0x1F76, 0x1F77, 1, 0x1FDA), (0x1F78, 0x1F79, 1,
   0x1FF8), (0x1F7A, 0x1F7B, 1, 0x1FEA), (0x1F7C, 0x1F7D, 1, 0x1FFA), (0x1FB0, 0x1FB1, 1,
   0x1FB8), (0x1FBE, 0x1FBE, 1, 0x399), (0x1FD0, 0x1FD1, 1, 0x1FD8), (0x1FE0, 0x1FE1, 1,
   0x1FE8), (0x1FE5, 0x1FE5, 1, 0x1FEC), (0x214E, 0x214E, 1, 0x2132), (0x2170, 0x217F, 1,
   0x2160), (0x2184, 0x2184, 1, 0x2183), (0x24D0, 0x24E9, 1, 0x24B6), (0x2C30, 0x2C5F, 1,
   0x2C00), (0x2C61, 0x2C61, 1, 0x2C60), (0x2C65, 0x2C65, 1, 0x23A), (0x2C66, 0x2C66, 1,
   0x23E), (0x2C68, 0x2C6C, 2, 0x2C67), (0x2C73, 0x2C73, 1, 0x2C72), (0x2C76, 0x2C76, 1,
   0x2C75), (0x2C81, 0x2CE3, 2, 0x2C80), (0x2CEC, 0x2CEE, 2, 0x2CEB), (0x2CF3, 0x2CF3, 1,
   0x2CF2), (0x2D00, 0x2D25, 1, 0x10A0), (0x2D27, 0x2D27, 1, 0x10C7), (0x2D2D, 0x2D2D, 1,
   0x10CD), (0xA641, 0xA66D, 2, 0xA640), (0xA681, 0xA69B, 2, 0xA680), (0xA723, 0xA72F, 2,
   0xA722), (0xA733, 0xA76F, 2, 0xA732), (0xA77A, 0xA77C, 2, 0xA779), (0xA77F, 0xA787, 2,
   0xA77E), (0xA78C, 0xA78C, 1, 0xA78B), (0xA791, 0xA793, 2, 0xA790), (0xA794, 0xA794, 1,
   0xA7C4), (0xA797, 0xA7A9, 2, 0xA796), (0xA7B5, 0xA7C3, 2, 0xA7B4), (0xA7C8, 0xA7CA, 2,
   0xA7C7), (0xA7D1, 0xA7D1, 1, 0xA7D0), (0xA7D7, 0xA7D9, 2, 0xA7D6), (0xA7F6, 0xA7F6, 1,
   0xA7F5), (0xAB53, 0xAB53, 1, 0xA7B3), (0xAB70, 0xABBF, 1, 0x13A0), (0xFF41, 0xFF5A, 1,
   0xFF21), (0x10428, 0x1044F, 1, 0x10400), (0x104D8, 0x104FB, 1, 0x104B0), (0x10597,
   0x105BB, 2, 0x10570), (0x10598, 0x105A1, 1, 0x10571), (0x105A4, 0x105B1, 1, 0x1057D),
   (0x105B4, 0x105B9, 1, 0x1058D), (0x105BC, 0x105BC, 1, 0x10595), (0x10CC0, 0x10CF2, 1,
   0x10C80), (0x118C0, 0x118DF, 1, 0x118A0), (0x16E60, 0x16E7F, 1, 0x16E40), (0x1E922,
   0x1E943, 1, 0x1E900)]"

text \<open>Code points whose uppercase is more than one code point (SpecialCasing).\<close>

definition upper_special :: "(codepoint \<times> pystr) list" where
  "upper_special = [
   (0xDF, [0x53, 0x53]), (0x149, [0x2BC, 0x4E]), (0x1F0, [0x4A, 0x30C]), (0x390, [0x399,
   0x308, 0x301]), (0x3B0, [0x3A5, 0x308, 0x301]), (0x587, [0x535, 0x552]), (0x1E96, [0x48,
   0x331]), (0x1E97, [0x54, 0x308]), (0x1E98, [0x57, 0x30A]), (0x1E99, [0x59, 0x30A]),
   (0x1E9A, [0x41, 0x2BE]), (0x1F50, [0x3A5, 0x313]), (0x1F52, [0x3A5, 0x313, 0x300]),
   (0x1F54, [0x3A5, 0x313, 0x301]), (0x1F56, [0x3A5, 0x313, 0x342]), (0x1F80, [0x1F08,
   0x399]), (0x1F81, [0x1F09, 0x399]), (0x1F82, [0x1F0A, 0x399]), (0x1F83, [0x1F0B, 0x399]),
   (0x1F84, [0x1F0C, 0x399]), (0x1F85, [0x1F0D, 0x399]), (0x1F86, [0x1F0E, 0x399]), (0x1F87,
   [0x1F0F, 0x399]), (0x1F88, [0x1F08, 0x399]), (0x1F89, [0x1F09, 0x399]), (0x1F8A, [0x1F0A,
   0x399]), (0x1F8B, [0x1F0B, 0x399]), (0x1F8C, [0x1F0C, 0x399]), (0x1F8D, [0x1F0D, 0x399]),
   (0x1F8E, [0x1F0E, 0x399]), (0x1F8F, [0x1F0F, 0x399]), (0x1F90, [0x1F28, 0x399]), (0x1F91,
   [0x1F29, 0x399]), (0x1F92, [0x1F2A, 0x399]), (0x1F93, [0x1F2B, 0x399]), (0x1F94, [0x1F2C,
   0x399]), (0x1F95, [0x1F2D, 0x399]), (0x1F96, [0x1F2E, 0x399]), (0x1F97, [0x1F2F, 0x399]),
   (0x1F98, [0x1F28, 0x399]), (0x1F99, [0x1F29, 0x399]), (0x1F9A, [0x1F2A, 0x399]), (0x1F9B,
   [0x1F2B, 0x399]), (0x1F9C, [0x1F2C, 0x399]), (0x1F9D, [0x1F2D, 0x399]), (0x1F9E, [0x1F2E,
   0x399]), (0x1F9F, [0x1F2F, 0x399]), (0x1FA0, [0x1F68, 0x399]), (0x1FA1, [0x1F69, 0x399]),
   (0x1FA2, [0x1F6A, 0x399]), (0x1FA3, [0x1F6B, 0x399]), (0x1FA4, [0x1F6C, 0x399]), (0x1FA5,
   [0x1F6D, 0x399]), (0x1FA6, [0x1F6E, 0x399]), (0x1FA7, [0x1F6F, 0x399]), (0x1FA8, [0x1F68,
   0x399]), (0x1FA9, [0x1F69, 0x399]), (0x1FAA, [0x1F6A, 0x399]), (0x1FAB, [0x1F6B, 0x399]),
   (0x1FAC, [0x1F6C, 0x399]), (0x1FAD, [0x1F6D, 0x399]), (0x1FAE, [0x1F6E, 0x399]), (0x1FAF,
   [0x1F6F, 0x399]), (0x1FB2, [0x1FBA, 0x399]), (0x1FB3, [0x391, 0x399]), (0x1FB4, [0x386,
   0x399]), (0x1FB6, [0x391, 0x342]), (0x1FB7, [0x391, 0x342, 0x399]), (0x1FBC, [0x391,
   0x399]), (0x1FC2, [0x1FCA, 0x399]), (0x1FC3, [0x397, 0x399]), (0x1FC4, [0x389, 0x399]),
   (0x1FC6, [0x397, 0x342]), (0x1FC7, [0x397, 0x342, 0x399]), (0x1FCC, [0x397, 0x399]),
   (0x1FD2, [0x399, 0x308, 0x300]), (0x1FD3, [0x399, 0x308, 0x301]), (0x1FD6, [0x399,
   0x342]), (0x1FD7, [0x399, 0x308, 0x342]), (0x1FE2, [0x3A5, 0x308, 0x300]), (0x1FE3,
   [0x3A5, 0x308, 0x301]), (0x1FE4, [0x3A1, 0x313]), (0x1FE6, [0x3A5, 0x342]), (0x1FE7,
   [0x3A5, 0x308, 0x342]), (0x1FF2, [0x1FFA, 0x399]), (0x1FF3, [0x3A9, 0x399]), (0x1FF4,
   [0x38F, 0x399]), (0x1FF6, [0x3A9, 0x342]), (0x1FF7, [0x3A9, 0x342, 0x399]), (0x1FFC,
   [0x3A9, 0x399]), (0xFB00, [0x46, 0x46]), (0xFB01, [0x46, 0x49]), (0xFB02, [0x46, 0x4C]),
   (0xFB03, [0x46, 0x46, 0x49]), (0xFB04, [0x46, 0x46, 0x4C]), (0xFB05, [0x53, 0x54]),
   (0xFB06, [0x53, 0x54]), (0xFB13, [0x544, 0x546]), (0xFB14, [0x544, 0x535]), (0xFB15,
   [0x544, 0x53B]), (0xFB16, [0x54E, 0x546]), (0xFB17, [0x544, 0x53D])]"

definition lower_runs :: "case_run list" where
  "lower_runs = [
   (0xC0, 0xD6, 1, 0xE0), (0xD8, 0xDE, 1, 0xF8), (0x100, 0x12E, 2, 0x101), (0x132, 0x136, 2,
   0x133), (0x139, 0x147, 2, 0x13A), (0x14A, 0x176, 2, 0x14B), (0x178, 0x178, 1, 0xFF),
   (0x179, 0x17D, 2, 0x17A), (0x181, 0x181, 1, 0x253), (0x182, 0x184, 2, 0x183), (0x186,
   0x186, 1, 0x254), (0x187, 0x187, 1, 0x188), (0x189, 0x18A, 1, 0x256), (0x18B, 0x18B, 1,
   0x18C), (0x18E, 0x18E, 1, 0x1DD), (0x18F, 0x18F, 1, 0x259), (0x190, 0x190, 1, 0x25B),
   (0x191, 0x191, 1, 0x192), (0x193, 0x193, 1, 0x260), (0x194, 0x194, 1, 0x263), (0x196,
   0x196, 1, 0x269), (0x197, 0x197, 1, 0x268), (0x198, 0x198, 1, 0x199), (0x19C, 0x19C, 1,
   0x26F), (0x19D, 0x19D, 1, 0x272), (0x19F, 0x19F, 1, 0x275), (0x1A0, 0x1A4, 2, 0x1A1),
   (0x1A6, 0x1A6, 1, 0x280), (0x1A7, 0x1A7, 1, 0x1A8), (0x1A9, 0x1A9, 1, 0x283), (0x1AC,
   0x1AC, 1, 0x1AD), (0x1AE, 0x1AE, 1, 0x288), (0x1AF, 0x1AF, 1, 0x1B0), (0x1B1, 0x1B2, 1,
   0x28A), (0x1B3, 0x1B5, 2, 0x1B4), (0x1B7, 0x1B7, 1, 0x292), (0x1B8, 0x1B8, 1, 0x1B9),
   (0x1BC, 0x1BC, 1, 0x1BD), (0x1C4, 0x1C4, 1, 0x1C6), (0x1C5, 0x1C5, 1, 0x1C6), (0x1C7,
   0x1C7, 1, 0x1C9), (0x1C8, 0x1C8, 1, 0x1C9), (0x1CA, 0x1CA, 1, 0x1CC), (0x1CB, 0x1DB, 2,
   0x1CC), (0x1DE, 0x1EE, 2, 0x1DF), (0x1F1, 0x1F1, 1, 0x1F3), (0x1F2, 0x1F4, 2, 0x1F3),
   (0x1F6, 0x1F6, 1, 0x195), (0x1F7, 0x1F7, 1, 0x1BF), (0x1F8, 0x21E, 2, 0x1F9), (0x220,
   0x220, 1, 0x19E), (0x222, 0x232, 2, 0x223), (0x23A, 0x23A, 1, 0x2C65), (0x23B, 0x23B, 1,
   0x23C), (0x23D, 0x23D, 1, 0x19A), (0x23E, 0x23E, 1, 0x2C66), (0x241, 0x241, 1, 0x242),
   (0x243, 0x243, 1, 0x180), (0x244, 0x244, 1, 0x289), (0x245, 0x245, 1, 0x28C), (0x246,
   0x24E, 2, 0x247), (0x370, 0x372, 2, 0x371), (0x376, 0x376, 1, 0x377), (0x37F, 0x37F, 1,
   0x3F3), (0x386, 0x386, 1, 0x3AC), (0x388, 0x38A, 1, 0x3AD), (0x38C, 0x38C, 1, 0x3CC),
   (0x38E, 0x38F, 1, 0x3CD), (0x391, 0x3A1, 1, 0x3B1), (0x3A3, 0x3AB, 1, 0x3C3), (0x3CF,
   0x3CF, 1, 0x3D7), (0x3D8, 0x3EE, 2, 0x3D9), (0x3F4, 0x3F4, 1, 0x3B8), (0x3F7, 0x3F7, 1,
   0x3F8), (0x3F9, 0x3F9, 1, 0x3F2), (0x3FA, 0x3FA, 1, 0x3FB), (0x3FD, 0x3FF, 1, 0x37B),
   (0x400, 0x40F, 1, 0x450), (0x410, 0x42F, 1, 0x430), (0x460, 0x480, 2, 0x461), (0x48A,
   0x4BE, 2, 0x48B), (0x4C0, 0x4C0, 1, 0x4CF), (0x4C1, 0x4CD, 2, 0x4C2), (0x4D0, 0x52E, 2,
   0x4D1), (0x531, 0x556, 1, 0x561), (0x10A0, 0x10C5, 1, 0x2D00), (0x10C7, 0x10C7, 1,
   0x2D27), (0x10CD, 0x10CD, 1, 0x2D2D), (0x13A0, 0x13EF, 1, 0xAB70), (0x13F0, 0x13F5, 1,
   0x13F8), (0x1C90, 0x1CBA, 1, 0x10D0), (0x1CBD, 0x1CBF, 1, 0x10FD), (0x1E00, 0x1E94, 2,
   0x1E01), (0x1E9E, 0x1E9E, 1, 0xDF), (0x1EA0, 0x1EFE, 2, 0x1EA1), (0x1F08, 0x1F0F, 1,
   0x1F00), (0x1F18, 0x1F1D, 1, 0x1F10), (0x1F28, 0x1F2F, 1, 0x1F20), (0x1F38, 0x1F3F, 1,
   0x1F30), (0x1F48, 0x1F4D, 1, 0x1F40), (0x1F59, 0x1F5F, 2, 0x1F51), (0x1F68, 0x1F6F, 1,
   0x1F60), (0x1F88, 0x1F8F, 1, 0x1F80), (0x1F98, 0x1F9F, 1, 0x1F90), (0x1FA8, 0x1FAF, 1,
   0x1FA0), (0x1FB8, 0x1FB9, 1, 0x1FB0), (0x1FBA, 0x1FBB, 1, 0x1F70), (0x1FBC, 0x1FBC, 1,
   0x1FB3), (0x1FC8, 0x1FCB, 1, 0x1F72), (0x1FCC, 0x1FCC, 1, 0x1FC3), (0x1FD8, 0x1FD9, 1,
   0x1FD0), (0x1FDA, 0x1FDB, 1, 0x1F76), (0x1FE8, 0x1FE9, 1, 0x1FE0), (0x1FEA, 0x1FEB, 1,
   0x1F7A), (0x1FEC, 0x1FEC, 1, 0x1FE5), (0x1FF8, 0x1FF9, 1, 0x1F78), (0x1FFA, 0x1FFB, 1,
   0x1F7C), (0x1FFC, 0x1FFC, 1, 0x1FF3), (0x2126, 0x2126, 1, 0x3C9), (0x212A, 0x212A, 1,
   0x6B), (0x212B, 0x212B, 1, 0xE5), (0x2132, 0x2132, 1, 0x214E), (0x2160, 0x216F, 1,
   0x2170), (0x2183, 0x2183, 1, 0x2184), (0x24B6, 0x24CF, 1, 0x24D0), (0x2C00, 0x2C2F, 1,
   0x2C30), (0x2C60, 0x2C60, 1, 0x2C61), (0x2C62, 0x2C62, 1, 0x26B), (0x2C63, 0x2C63, 1,
   0x1D7D), (0x2C64, 0x2C64, 1, 0x27D), (0x2C67, 0x2C6B, 2, 0x2C68), (0x2C6D, 0x2C6D, 1,
   0x251), (0x2C6E, 0x2C6E, 1, 0x271), (0x2C6F, 0x2C6F, 1, 0x250), (0x2C70, 0x2C70, 1,
   0x252), (0x2C72, 0x2C72, 1, 0x2C73), (0x2C75, 0x2C75, 1, 0x2C76), (0x2C7E, 0x2C7F, 1,
   0x23F), (0x2C80, 0x2CE2, 2, 0x2C81), (0x2CEB, 0x2CED, 2, 0x2CEC), (0x2CF2, 0x2CF2, 1,
   0x2CF3), (0xA640, 0xA66C, 2, 0xA641), (0xA680, 0xA69A, 2, 0xA681), (0xA722, 0xA72E, 2,
   0xA723), (0xA732, 0xA76E, 2, 0xA733), (0xA779, 0xA77B, 2, 0xA77A), (0xA77D, 0xA77D, 1,
   0x1D79), (0xA77E, 0xA786, 2, 0xA77F), (0xA78B, 0xA78B, 1, 0xA78C), (0xA78D, 0xA78D, 1,
   0x265), (0xA790, 0xA792, 2, 0xA791), (0xA796, 0xA7A8, 2, 0xA797), (0xA7AA, 0xA7AA, 1,
   0x266), (0xA7AB, 0xA7AB, 1, 0x25C), (0xA7AC, 0xA7AC, 1, 0x261), (0xA7AD, 0xA7AD, 1,
   0x26C), (0xA7AE, 0xA7AE, 1, 0x26A), (0xA7B0, 0xA7B0, 1, 0x29E), (0xA7B1, 0xA7B1, 1,
   0x287), (0xA7B2, 0xA7B2, 1, 0x29D), (0xA7B3, 0xA7B3, 1, 0xAB53), (0xA7B4, 0xA7C2, 2,
   0xA7B5), (0xA7C4, 0xA7C4, 1, 0xA794), (0xA7C5, 0xA7C5, 1, 0x282), (0xA7C6, 0xA7C6, 1,
   0x1D8E), (0xA7C7, 0xA7C9, 2, 0xA7C8), (0xA7D0, 0xA7D0, 1, 0xA7D1), (0xA7D6, 0xA7D8, 2,
   0xA7D7), (0xA7F5, 0xA7F5, 1, 0xA7F6), (0xFF21, 0xFF3A, 1, 0xFF41), (0x10400, 0x10427, 1,
   0x10428), (0x104B0, 0x104D3, 1, 0x104D8), (0x10570, 0x10594, 2, 0x10597), (0x10571,
   0x1057A, 1, 0x10598), (0x1057D, 0x1058A, 1, 0x105A4), (0x1058D, 0x10592, 1, 0x105B4),
   (0x10595, 0x10595, 1, 0x105BC), (0x10C80, 0x10CB2, 1, 0x10CC0), (0x118A0, 0x118BF, 1,
   0x118C0), (0x16E40, 0x16E5F, 1, 0x16E60), (0x1E900, 0x1E921, 1, 0x1E922)]"

definition lower_special :: "(codepoint \<times> pystr) list" where
  "lower_special = [
   (0x130, [0x69, 0x307])]"

subsection \<open>The string methods the script calls\<close>

definition py_isspace_cp :: "codepoint \<Rightarrow> bool" where
  "py_isspace_cp c = in_ranges whitespace_ranges c"

text \<open>\<open>s.strip()\<close>: leading and trailing whitespace removed.\<close>

definition py_strip :: "pystr \<Rightarrow> pystr" where
  "py_strip s = rev (dropWhile py_isspace_cp (rev (dropWhile py_isspace_cp s)))"

definition py_isdigit_cp :: "codepoint \<Rightarrow> bool" where
  "py_isdigit_cp c = in_ranges digit_ranges c"

text \<open>\<open>s.isdigit()\<close>: at least one character, and all of them digits.\<close>

definition py_isdigit :: "pystr \<Rightarrow> bool" where
  "py_isdigit s = (s \<noteq> [] \<and> list_all py_isdigit_cp s)"

definition py_upper_cp :: "codepoint \<Rightarrow> pystr" where
  "py_upper_cp c =
     (if c < 0x80 then [if 0x61 \<le> c \<and> c \<le> 0x7A then c - 0x20 else c]
      else case map_of upper_special c of
        Some u \<Rightarrow> u
      | None \<Rightarrow> (case run_lookup upper_runs c of Some u \<Rightarrow> [u] | None \<Rightarrow> [c]))"

definition py_upper :: "pystr \<Rightarrow> pystr" where
  "py_upper s = concat (map py_upper_cp s)"

text \<open>
  \<open>s.lower()\<close>.  For U+03A3 CPython picks U+03C2 instead of U+03C3 at the end of a word;
  the table has U+03C3.  Both are outside ASCII, and the script only compares lowercased
  strings with ASCII literals.
\<close>

definition py_lower_cp :: "codepoint \<Rightarrow> pystr" where
  "py_lower_cp c =
     (if c < 0x80 then [if 0x41 \<le> c \<and> c \<le> 0x5A then c + 0x20 else c]
      else case map_of lower_special c of
        Some l \<Rightarrow> l
      | None \<Rightarrow> (case run_lookup lower_runs c of Some l \<Rightarrow> [l] | None \<Rightarrow> [c]))"

definition py_lower :: "pystr \<Rightarrow> pystr" where
  "py_lower s = concat (map py_lower_cp s)"

section \<open>The field predicates of the script\<close>

text \<open>
  \<open>_is_snv_allele\<close> and \<open>_is_missing\<close>.  Both start with \<open>(x or "")\<close>, which is the
  identity on a \<open>str\<close>; the script only calls them on strings.
\<close>

definition is_snv_allele :: "pystr \<Rightarrow> bool" where
  "is_snv_allele allele =
     (let a = py_upper (py_strip allele)
      in length a = 1 \<and> a \<in> {str ''A'', str ''C'', str ''G'', str ''T''})"

definition is_missing :: "pystr \<Rightarrow> bool" where
  "is_missing val =
     (let v = py_lower (py_strip val)
      in v \<in> {str '''', str ''na'', str ''n/a'', str ''nan'', str ''none''})"

section \<open>\<open>int()\<close>\<close>

text \<open>
  \<open>int(s)\<close> for a string, base 10, as CPython parses it: whitespace around the literal is
  skipped (the ASCII characters TAB, LF, VT, FF, CR and space; above U+007F whatever
  \<open>str.isspace\<close> accepts), then an optional sign, then decimal digits of any script, with
  single underscores allowed between digits.  More than \<open>sys.int_max_str_digits\<close> digits
  (4300 by default) raise \<open>ValueError\<close>.  \<open>None\<close> stands for the exception.
\<close>

definition int_max_str_digits :: nat where
  "int_max_str_digits = 4300"

definition int_space :: "codepoint \<Rightarrow> bool" where
  "int_space c =
     (if c < 0x80 then (0x09 \<le> c \<and> c \<le> 0x0D) \<or> c = 0x20 else py_isspace_cp c)"

definition py_decimal_value :: "codepoint \<Rightarrow> nat option" where
  "py_decimal_value c =
     (case find (\<lambda>(lo, hi). lo \<le> c \<and> c \<le> hi) decimal_ranges of
        None \<Rightarrow> None
      | Some (lo, hi) \<Rightarrow> Some ((c - lo) mod 10))"

fun int_digits :: "pystr \<Rightarrow> nat list option" where
  "int_digits [] = None"
| "int_digits [c] = map_option (\<lambda>d. [d]) (py_decimal_value c)"
| "int_digits (c # c' # cs) =
     (case py_decimal_value c of
        None \<Rightarrow> None
      | Some d \<Rightarrow>
          if c' = 0x5F then map_option ((#) d) (int_digits cs)
          else map_option ((#) d) (int_digits (c' # cs)))"

definition digits_value :: "nat list \<Rightarrow> nat" where
  "digits_value ds = foldl (\<lambda>acc d. 10 * acc + d) 0 ds"

definition py_int_str :: "pystr \<Rightarrow> int option" where
  "py_int_str s =
     (let t = rev (dropWhile int_space (rev (dropWhile int_space s)));
          (negative, body) =
            (case t of
               [] \<Rightarrow> (False, t)
             | c # cs \<Rightarrow>
                 if c = 0x2D then (True, cs) else if c = 0x2B then (False, cs) else (False, t))
      in case int_digits body of
           None \<Rightarrow> None
         | Some ds \<Rightarrow>
             if length ds > int_max_str_digits then None
             else Some (if negative then - int (digits_value ds) else int (digits_value ds)))"

section \<open>Reading the identifiers from the pickle\<close>

text \<open>
  What \<open>pickle.load\<close> can hand to the script.  A field value is an \<open>int\<close>, a \<open>bool\<close>, a
  \<open>str\<close>, \<open>None\<close>, or a value of any other type, which is kept only as what \<open>int()\<close>
  does with it (a float is truncated, a list raises).  An object is a \<open>dict\<close> or anything
  else.
\<close>

datatype pyval = VInt int | VBool bool | VStr pystr | VNone | VOther "int option"

datatype pyobj = PDict "(pyval \<times> pyval) list" | PNotDict

text \<open>\<open>int(v)\<close>; \<open>None\<close> when it raises.\<close>

fun py_int :: "pyval \<Rightarrow> int option" where
  "py_int (VInt n) = Some n"
| "py_int (VBool b) = Some (if b then 1 else 0)"
| "py_int (VStr s) = py_int_str s"
| "py_int VNone = None"
| "py_int (VOther r) = r"

text \<open>
  The pickle file is the list of the outcomes of the successive \<open>pickle.load(f)\<close> calls:
  an object, or an exception other than \<open>EOFError\<close>, which the script does not catch and
  which ends the run.  \<open>pickle.load\<close> raises such an exception when it cannot build an
  object from the bytes: on corrupt or truncated data, or when the class of the pickled
  object cannot be imported.  At the end of the list \<open>pickle.load\<close> raises \<open>EOFError\<close>.
  The records that the loop examines are the objects that \<open>pickle.load\<close> returns.
\<close>

datatype load_event = Loaded pyobj | LoadFails

datatype error = LoadError

text \<open>The body of the \<open>while\<close> loop after a successful load.\<close>

definition add_id :: "int set \<Rightarrow> pyobj \<Rightarrow> int set" where
  "add_id ids obj =
     (case obj of
        PNotDict \<Rightarrow> ids
      | PDict items \<Rightarrow>
          (case map_of items (VStr (str ''ID'')) of
             None \<Rightarrow> ids
           | Some v \<Rightarrow> (case py_int v of None \<Rightarrow> ids | Some n \<Rightarrow> insert n ids)))"

text \<open>
  \<open>while len(ids) < args.max_ids: ...\<close>  At the end of the stream both ways out of the
  loop, the guard being false and the \<open>EOFError\<close> that is caught, leave the set as it is.
\<close>

fun read_ids :: "int \<Rightarrow> int set \<Rightarrow> load_event list \<Rightarrow> error + int set" where
  "read_ids max_ids ids [] = Inr ids"
| "read_ids max_ids ids (ev # rest) =
     (if int (card ids) < max_ids then
        (case ev of
           LoadFails \<Rightarrow> Inl LoadError
         | Loaded obj \<Rightarrow> read_ids max_ids (add_id ids obj) rest)
      else Inr ids)"

section \<open>Scanning the reference rows\<close>

text \<open>
  A row of \<open>csv.DictReader\<close>, restricted to the columns the script reads.  A field is
  \<open>None\<close> when the column is not in the header or the line is too short.
\<close>

record reference_row =
  VariationID :: "pystr option"
  Assembly :: "pystr option"
  Chromosome :: "pystr option"
  PositionVCF :: "pystr option"
  ReferenceAlleleVCF :: "pystr option"
  AlternateAlleleVCF :: "pystr option"

type_synonym coord = "pystr \<times> pystr \<times> pystr \<times> pystr"

text \<open>\<open>f"{chrom}_{pos}_{ref}_{alt}"\<close>\<close>

definition coord_key :: "coord \<Rightarrow> pystr" where
  "coord_key t =
     (case t of (chrom, pos, ref, alt) \<Rightarrow>
        chrom @ str ''_'' @ pos @ str ''_'' @ ref @ str ''_'' @ alt)"

text \<open>
  The filters of the loop body, in the order of the script.  Each \<open>continue\<close> is a
  rejection, tagged with the test that fired; a row that passes them all yields the
  identifier, the key and the tuple that the script then stores.
  \<open>int(row["VariationID"])\<close> raises when the field is absent or not a number.
\<close>

datatype reject =
  BadVariationID | NotWanted | WrongAssembly | MissingField | BadPosition | NotSNV

definition filter_row ::
  "int set \<Rightarrow> pystr \<Rightarrow> reference_row \<Rightarrow> reject + (int \<times> pystr \<times> coord)" where
  "filter_row ids args_assembly row =
     (case Option.bind (VariationID row) py_int_str of
        None \<Rightarrow> Inl BadVariationID
      | Some variation_id \<Rightarrow>
          if variation_id \<notin> ids then Inl NotWanted
          else
            let assembly = py_strip (or_empty (Assembly row)) in
            if args_assembly \<noteq> [] \<and> assembly \<noteq> [] \<and> assembly \<noteq> args_assembly
            then Inl WrongAssembly
            else
              let chrom = py_strip (or_empty (Chromosome row));
                  pos = py_strip (or_empty (PositionVCF row));
                  ref = py_strip (or_empty (ReferenceAlleleVCF row));
                  alt = py_strip (or_empty (AlternateAlleleVCF row))
              in
                if is_missing chrom \<or> is_missing pos \<or> is_missing ref \<or> is_missing alt
                then Inl MissingField
                else if \<not> py_isdigit pos then Inl BadPosition
                else if \<not> (is_snv_allele ref \<and> is_snv_allele alt) then Inl NotSNV
                else
                  Inr (variation_id,
                       coord_key (chrom, pos, py_upper ref, py_upper alt),
                       (chrom, pos, py_upper ref, py_upper alt)))"

text \<open>
  A \<open>dict\<close> is an association list in insertion order with distinct keys; \<open>d[k] = v\<close> is
  \<^const>\<open>AList.update\<close>, which replaces the value of a present key in place and appends
  an absent key.
\<close>

type_synonym key_map = "(pystr \<times> coord) list"
type_synonym candidates = "(int \<times> key_map) list"

record scan_state =
  candidates :: candidates
  seen_rows :: nat
  kept_rows :: nat

text \<open>\<open>candidates.setdefault(variation_id, {})[key] = value\<close>\<close>

definition register :: "int \<Rightarrow> pystr \<Rightarrow> coord \<Rightarrow> candidates \<Rightarrow> candidates" where
  "register variation_id key val cands =
     (let key_map = (case map_of cands variation_id of None \<Rightarrow> [] | Some m \<Rightarrow> m)
      in AList.update variation_id (AList.update key val key_map) cands)"

definition process_row :: "int set \<Rightarrow> pystr \<Rightarrow> scan_state \<Rightarrow> reference_row \<Rightarrow> scan_state" where
  "process_row ids args_assembly st row =
     (let st1 = st\<lparr>seen_rows := seen_rows st + 1\<rparr>
      in case filter_row ids args_assembly row of
           Inl _ \<Rightarrow> st1
         | Inr (variation_id, key, val) \<Rightarrow>
             st1\<lparr>candidates := register variation_id key val (candidates st1),
                 kept_rows := kept_rows st1 + 1\<rparr>)"

primrec scan_rows ::
  "int set \<Rightarrow> pystr \<Rightarrow> scan_state \<Rightarrow> reference_row list \<Rightarrow> scan_state" where
  "scan_rows ids args_assembly st [] = st"
| "scan_rows ids args_assembly st (row # rows) =
     scan_rows ids args_assembly (process_row ids args_assembly st row) rows"

definition scan_init :: scan_state where
  "scan_init = \<lparr>candidates = [], seen_rows = 0, kept_rows = 0\<rparr>"

section \<open>Writing the two tables\<close>

record unique_row =
  pickle_ID :: int
  out_Chromosome :: pystr
  out_PositionVCF :: pystr
  out_ReferenceAlleleVCF :: pystr
  out_AlternateAlleleVCF :: pystr
  chr_pos_ref_alt :: pystr

record ambiguous_row = unique_row +
  n_candidates :: nat

record out_tables =
  unique_table :: "unique_row list"
  ambiguous_table :: "ambiguous_row list"
  unique_written :: nat
  ambiguous_written :: nat

definition write_unique :: "int \<Rightarrow> pystr \<times> coord \<Rightarrow> out_tables \<Rightarrow> out_tables" where
  "write_unique variation_id item t =
     (case item of (only_key, (chrom, pos, ref, alt)) \<Rightarrow>
        t\<lparr>unique_table := unique_table t @
             [\<lparr>pickle_ID = variation_id, out_Chromosome = chrom, out_PositionVCF = pos,
               out_ReferenceAlleleVCF = ref, out_AlternateAlleleVCF = alt,
               chr_pos_ref_alt = only_key\<rparr>],
          unique_written := unique_written t + 1\<rparr>)"

definition write_ambiguous ::
  "int \<Rightarrow> nat \<Rightarrow> pystr \<times> coord \<Rightarrow> out_tables \<Rightarrow> out_tables" where
  "write_ambiguous variation_id n item t =
     (case item of (key, (chrom, pos, ref, alt)) \<Rightarrow>
        t\<lparr>ambiguous_table := ambiguous_table t @
             [\<lparr>pickle_ID = variation_id, out_Chromosome = chrom, out_PositionVCF = pos,
               out_ReferenceAlleleVCF = ref, out_AlternateAlleleVCF = alt,
               chr_pos_ref_alt = key, n_candidates = n\<rparr>],
          ambiguous_written := ambiguous_written t + 1\<rparr>)"

text \<open>
  The body of \<open>for variation_id, key_map in sorted(candidates.items())\<close>.  With
  \<open>len(key_map) == 1\<close> the first item of the dict is its only one.
  \<open>sorted(key_map.items())\<close> sorts the items, pairs of a string and a tuple of strings,
  as tuples.
\<close>

definition emit_entry :: "int \<times> key_map \<Rightarrow> out_tables \<Rightarrow> out_tables" where
  "emit_entry entry t =
     (case entry of (variation_id, key_map) \<Rightarrow>
        if length key_map = 1 then
          (case key_map of item # _ \<Rightarrow> write_unique variation_id item t | [] \<Rightarrow> t)
        else
          fold (write_ambiguous variation_id (length key_map)) (sort key_map) t)"

definition out_init :: out_tables where
  "out_init = \<lparr>unique_table = [], ambiguous_table = [], unique_written = 0,
               ambiguous_written = 0\<rparr>"

text \<open>
  \<open>sorted(candidates.items())\<close>: the items are pairs of an identifier and a dict.  The
  identifiers are the keys of a dict, hence distinct, so the comparison of two items is
  decided by the identifiers and the items are ordered by identifier.
\<close>

definition write_tables :: "candidates \<Rightarrow> out_tables" where
  "write_tables cands = fold emit_entry (sort_key fst cands) out_init"

section \<open>The script\<close>

text \<open>
  \<open>main\<close>, for the two options it reads besides the paths.  The reference file is the list
  of the rows that \<open>csv.DictReader\<close> yields.  A failure to open, read or write a file ends
  the run with an exception before anything is reported; such runs are not modelled.  The
  report holds what the script prints and writes: the identifiers collected, the state at
  the end of the scan, and the two tables with their counters.
\<close>

record args =
  opt_assembly :: pystr
  opt_max_ids :: int

record report =
  collected_ids :: "int set"
  scanned :: scan_state
  written :: out_tables

definition main :: "args \<Rightarrow> load_event list \<Rightarrow> reference_row list \<Rightarrow> error + report" where
  "main a pkl clinvar =
     (case read_ids (opt_max_ids a) {} pkl of
        Inl e \<Rightarrow> Inl e
      | Inr wanted \<Rightarrow>
          let st = scan_rows wanted (opt_assembly a) scan_init clinvar
          in Inr \<lparr>collected_ids = wanted, scanned = st, written = write_tables (candidates st)\<rparr>)"

section \<open>Notions used in the statements\<close>

text \<open>
  The rows that pass the filters, in scan order, each as the identifier, key and tuple
  that the loop registers.
\<close>

definition kept_triples ::
  "int set \<Rightarrow> pystr \<Rightarrow> reference_row list \<Rightarrow> (int \<times> pystr \<times> coord) list" where
  "kept_triples ids args_assembly rows =
     concat (map (\<lambda>row. case filter_row ids args_assembly row of
                           Inl _ \<Rightarrow> [] | Inr x \<Rightarrow> [x]) rows)"

text \<open>The distinct coordinate tuples that survive the filters for an identifier.\<close>

definition surviving :: "int set \<Rightarrow> pystr \<Rightarrow> reference_row list \<Rightarrow> int \<Rightarrow> coord set" where
  "surviving ids args_assembly rows vid =
     set (map (\<lambda>(v, key, val). val)
            (filter (\<lambda>(v, key, val). v = vid) (kept_triples ids args_assembly rows)))"

text \<open>
  The candidates as a mapping from identifiers to mappings from keys to tuples; two dicts
  of dicts are equal in Python when these mappings are equal.
\<close>

definition candidate_mapping :: "candidates \<Rightarrow> int \<Rightarrow> (pystr \<Rightarrow> coord option) option" where
  "candidate_mapping cands vid = map_option map_of (map_of cands vid)"

text \<open>The rows of a table that carry a given identifier.\<close>

definition rows_with_id :: "int \<Rightarrow> 'a unique_row_scheme list \<Rightarrow> 'a unique_row_scheme list" where
  "rows_with_id vid table = filter (\<lambda>r. pickle_ID r = vid) table"

text \<open>The scan followed by the writing of the tables, for a given set of wanted identifiers.\<close>

definition resolve :: "int set \<Rightarrow> pystr \<Rightarrow> reference_row list \<Rightarrow> out_tables" where
  "resolve ids args_assembly rows =
     write_tables (candidates (scan_rows ids args_assembly scan_init rows))"

text \<open>The tuple stored under an identifier and a key, if any.\<close>

definition lookup2 :: "candidates \<Rightarrow> int \<Rightarrow> pystr \<Rightarrow> coord option" where
  "lookup2 cands vid k = (case map_of cands vid of None \<Rightarrow> None | Some km \<Rightarrow> map_of km k)"

text \<open>The invariant of a dict of dicts: distinct keys at both levels.\<close>

definition wf_candidates :: "candidates \<Rightarrow> bool" where
  "wf_candidates cands \<longleftrightarrow>
     distinct (map fst cands) \<and> (\<forall>e \<in> set cands. distinct (map fst (snd e)))"

text \<open>
  The candidates hold exactly the triples of \<open>T\<close>, and no identifier has an empty dict.
\<close>

definition holds_exactly :: "candidates \<Rightarrow> (int \<times> pystr \<times> coord) set \<Rightarrow> bool" where
  "holds_exactly cands T \<longleftrightarrow>
     wf_candidates cands \<and> (\<forall>e \<in> set cands. snd e \<noteq> [])
     \<and> (\<forall>vid k v. lookup2 cands vid k = Some v \<longleftrightarrow> (vid, k, v) \<in> T)"

text \<open>In a set of triples, an identifier and a key determine the tuple.\<close>

definition key_functional :: "(int \<times> pystr \<times> coord) set \<Rightarrow> bool" where
  "key_functional T \<longleftrightarrow> (\<forall>vid k v v'. (vid, k, v) \<in> T \<and> (vid, k, v') \<in> T \<longrightarrow> v = v')"

text \<open>The row written for an item of a dict, and the rows written for an entry.\<close>

definition unique_row_of :: "int \<Rightarrow> pystr \<times> coord \<Rightarrow> unique_row" where
  "unique_row_of vid item =
     (case item of (key, (chrom, pos, ref, alt)) \<Rightarrow>
        \<lparr>pickle_ID = vid, out_Chromosome = chrom, out_PositionVCF = pos,
         out_ReferenceAlleleVCF = ref, out_AlternateAlleleVCF = alt, chr_pos_ref_alt = key\<rparr>)"

definition ambiguous_row_of :: "int \<Rightarrow> nat \<Rightarrow> pystr \<times> coord \<Rightarrow> ambiguous_row" where
  "ambiguous_row_of vid n item =
     (case item of (key, (chrom, pos, ref, alt)) \<Rightarrow>
        \<lparr>pickle_ID = vid, out_Chromosome = chrom, out_PositionVCF = pos,
         out_ReferenceAlleleVCF = ref, out_AlternateAlleleVCF = alt, chr_pos_ref_alt = key,
         n_candidates = n\<rparr>)"

definition entry_unique_rows :: "int \<times> key_map \<Rightarrow> unique_row list" where
  "entry_unique_rows e = (if length (snd e) = 1 then map (unique_row_of (fst e)) (snd e) else [])"

definition entry_ambiguous_rows :: "int \<times> key_map \<Rightarrow> ambiguous_row list" where
  "entry_ambiguous_rows e =
     (if length (snd e) = 1 then []
      else map (ambiguous_row_of (fst e) (length (snd e))) (sort (snd e)))"

text \<open>
  The position filter in the words of the specification (filter 5, and \<open>position: string
  (digits only)\<close> in its data model): the field consists entirely of decimal digits, the
  characters \<open>0\<close> to \<open>9\<close>.
\<close>

definition spec_decimal_position :: "pystr \<Rightarrow> bool" where
  "spec_decimal_position pos = (pos \<noteq> [] \<and> list_all (\<lambda>c. 0x30 \<le> c \<and> c \<le> 0x39) pos)"

text \<open>
  A record that is not a key-value mapping, or lacks the \<open>ID\<close> field, or whose \<open>ID\<close>
  value cannot be coerced to an integer.
\<close>

definition skipped_record :: "pyobj \<Rightarrow> bool" where
  "skipped_record obj =
     (case obj of
        PNotDict \<Rightarrow> True
      | PDict items \<Rightarrow>
          (case map_of items (VStr (str ''ID'')) of
             None \<Rightarrow> True
           | Some v \<Rightarrow> py_int v = None))"

section \<open>Example inputs\<close>

text \<open>Concrete rows and streams on which the theorems below are instantiated.\<close>

definition mk_row ::
  "string \<Rightarrow> string \<Rightarrow> string \<Rightarrow> string \<Rightarrow> string \<Rightarrow> string \<Rightarrow> reference_row" where
  "mk_row vid asm chrom pos ref alt =
     \<lparr>VariationID = Some (str vid), Assembly = Some (str asm), Chromosome = Some (str chrom),
      PositionVCF = Some (str pos), ReferenceAlleleVCF = Some (str ref),
      AlternateAlleleVCF = Some (str alt)\<rparr>"

definition row10 :: reference_row where
  "row10 = mk_row ''10'' ''GRCh38'' ''1'' ''12345'' ''a'' ''G''"

definition row20a :: reference_row where
  "row20a = mk_row ''20'' '''' ''X'' ''5'' ''C'' ''T''"

definition row20b :: reference_row where
  "row20b = mk_row ''20'' ''GRCh38'' ''X'' ''15'' ''C'' ''T''"

definition row10_grch37 :: reference_row where
  "row10_grch37 = mk_row ''10'' ''GRCh37'' ''1'' ''999'' ''A'' ''G''"

definition row10_ag :: reference_row where
  "row10_ag = mk_row ''10'' ''GRCh38'' ''1'' ''999'' ''AG'' ''G''"

definition row40 :: reference_row where
  "row40 = mk_row ''40'' ''GRCh38'' ''2'' ''7'' ''A'' ''C''"

text \<open>A row whose position is the single character U+00B2, SUPERSCRIPT TWO.\<close>

definition row30_superscript :: reference_row where
  "row30_superscript = (mk_row ''30'' ''GRCh38'' ''1'' '''' ''A'' ''G'')\<lparr>PositionVCF := Some [0xB2]\<rparr>"

definition wanted_example :: "int set" where
  "wanted_example = {10, 20, 30}"

definition rows_example :: "reference_row list" where
  "rows_example = [row20b, row10, row40, row20a, row10_grch37, row10, row10_ag]"

text \<open>A pickle stream with records of every kind, and the options of a run.\<close>

definition pkl_example :: "load_event list" where
  "pkl_example =
     [Loaded PNotDict,
      Loaded (PDict [(VStr (str ''ID''), VInt 10)]),
      Loaded (PDict [(VStr (str ''name''), VStr (str ''x''))]),
      Loaded (PDict [(VStr (str ''ID''), VStr (str ''20''))]),
      Loaded (PDict [(VStr (str ''ID''), VNone)]),
      Loaded (PDict [(VStr (str ''ID''), VStr (str ''rs30''))]),
      Loaded (PDict [(VStr (str ''ID''), VInt 30)]),
      Loaded (PDict [(VStr (str ''ID''), VInt 10)])]"

definition args_example :: args where
  "args_example = \<lparr>opt_assembly = str ''GRCh38'', opt_max_ids = 50000\<rparr>"

section \<open>Properties of the string functions\<close>

lemma run_lookup_SomeD:
  "run_lookup rs c = Some u \<Longrightarrow>
     \<exists>(lo, hi, step, img) \<in> set rs. lo \<le> c \<and> c \<le> hi \<and> u = img + (c - lo)"
  by (induction rs c rule: run_lookup.induct) (auto split: if_splits)

text \<open>
  Above U+007F no code point has \<open>A\<close>, \<open>C\<close>, \<open>G\<close> or \<open>T\<close> as its uppercase form: a run
  either has all its images above \<open>T\<close>, or is a single code point with another image
  (U+0131 and U+017F, with \<open>I\<close> and \<open>S\<close>), and the special mappings are all longer than
  one code point.
\<close>

lemma upper_runs_not_acgt:
  "list_all (\<lambda>(lo, hi, step, img).
      0x54 < img \<or> (lo = hi \<and> img \<notin> {0x41, 0x43, 0x47, 0x54})) upper_runs"
  by code_simp

lemma upper_special_not_single: "list_all (\<lambda>(c, u). 2 \<le> length u) upper_special"
  by code_simp

lemma py_upper_cp_nonempty: "py_upper_cp c \<noteq> []"
  using upper_special_not_single
  by (auto simp: py_upper_cp_def list_all_iff split: option.splits dest!: map_of_SomeD)

lemma py_upper_cp_acgt:
  assumes "py_upper_cp c = [x]" "x \<in> {0x41, 0x43, 0x47, 0x54}"
  shows "c = x \<or> c = x + 0x20"
proof (cases "c < 0x80")
  case True
  with assms show ?thesis by (auto simp: py_upper_cp_def split: if_splits)
next
  case False
  show ?thesis
  proof (cases "map_of upper_special c")
    case (Some u)
    then have "(c, u) \<in> set upper_special" by (rule map_of_SomeD)
    with upper_special_not_single have "2 \<le> length u" by (auto simp: list_all_iff)
    moreover from False Some assms have "u = [x]" by (simp add: py_upper_cp_def)
    ultimately show ?thesis by simp
  next
    case None
    show ?thesis
    proof (cases "run_lookup upper_runs c")
      case rn: None
      with None False assms show ?thesis by (auto simp: py_upper_cp_def)
    next
      case (Some u)
      from run_lookup_SomeD[OF this] obtain lo hi step img
        where r: "(lo, hi, step, img) \<in> set upper_runs" "lo \<le> c" "c \<le> hi" "u = img + (c - lo)"
        by auto
      from r(1) upper_runs_not_acgt
      have "0x54 < img \<or> (lo = hi \<and> img \<notin> {0x41, 0x43, 0x47, 0x54})"
        by (auto simp: list_all_iff)
      with r have "u \<notin> {0x41, 0x43, 0x47, 0x54}" by auto
      moreover from False None Some assms have "u = x" by (simp add: py_upper_cp_def)
      ultimately show ?thesis using assms by simp
    qed
  qed
qed

text \<open>A string whose uppercase is \<open>A\<close>, \<open>C\<close>, \<open>G\<close> or \<open>T\<close> is that letter or its lowercase.\<close>

lemma py_upper_single:
  assumes "py_upper s = [x]" "x \<in> {0x41, 0x43, 0x47, 0x54}"
  shows "s = [x] \<or> s = [x + 0x20]"
proof -
  from assms(1) have "length (concat (map py_upper_cp s)) = 1" by (simp add: py_upper_def)
  moreover have "length s \<le> length (concat (map py_upper_cp s))"
  proof (induction s)
    case (Cons c s)
    have "1 \<le> length (py_upper_cp c)"
      using py_upper_cp_nonempty[of c] by (cases "py_upper_cp c") auto
    with Cons show ?case by simp
  qed simp
  ultimately have "length s \<le> 1" by simp
  moreover from assms(1) have "s \<noteq> []" by (auto simp: py_upper_def)
  ultimately obtain c where s: "s = [c]" by (cases s) auto
  with assms(1) have "py_upper_cp c = [x]" by (simp add: py_upper_def)
  from py_upper_cp_acgt[OF this assms(2)] s show ?thesis by simp
qed

lemma rstrip_prefix: "xs = rev (dropWhile P (rev xs)) @ rev (takeWhile P (rev xs))"
  by (simp flip: rev_append)

lemma dropWhile_rstrip:
  assumes "dropWhile P xs = xs"
  shows "dropWhile P (rev (dropWhile P (rev xs))) = rev (dropWhile P (rev xs))"
proof (cases "rev (dropWhile P (rev xs)) = []")
  case True
  then show ?thesis by (simp only: dropWhile.simps)
next
  case False
  then have "hd (rev (dropWhile P (rev xs))) = hd xs"
    using rstrip_prefix[of xs P] by (metis hd_append2)
  moreover from False have "xs \<noteq> []" by auto
  ultimately show ?thesis using assms False
    by (simp add: dropWhile_eq_self_iff)
qed

text \<open>Stripping a stripped string changes nothing.\<close>

lemma py_strip_idem: "py_strip (py_strip s) = py_strip s"
proof -
  have "dropWhile py_isspace_cp (dropWhile py_isspace_cp s) = dropWhile py_isspace_cp s"
    by simp
  from dropWhile_rstrip[OF this]
  show ?thesis by (simp add: py_strip_def)
qed

section \<open>The row filter\<close>

lemma str_acgt:
  "str ''A'' = [0x41]" "str ''C'' = [0x43]" "str ''G'' = [0x47]" "str ''T'' = [0x54]"
  "str ''a'' = [0x61]" "str ''c'' = [0x63]" "str ''g'' = [0x67]" "str ''t'' = [0x74]"
  by (simp_all add: str_def)

lemma is_snv_allele_iff:
  "is_snv_allele s \<longleftrightarrow> py_upper (py_strip s) \<in> {[0x41], [0x43], [0x47], [0x54]}"
  unfolding is_snv_allele_def Let_def str_acgt by auto

lemma is_snv_allele_stripped:
  assumes "is_snv_allele (py_strip s)"
  shows "py_strip s \<in> {str ''A'', str ''C'', str ''G'', str ''T'', str ''a'', str ''c'', str ''g'', str ''t''}
     \<and> py_upper (py_strip s) \<in> {str ''A'', str ''C'', str ''G'', str ''T''}"
proof -
  from assms have u: "py_upper (py_strip s) \<in> {[0x41], [0x43], [0x47], [0x54]}"
    unfolding is_snv_allele_iff py_strip_idem .
  then obtain x where x: "py_upper (py_strip s) = [x]" "x \<in> {0x41, 0x43, 0x47, 0x54}"
    by auto
  from py_upper_single[OF x] x(2) u show ?thesis
    unfolding str_acgt by auto
qed

lemma filter_row_InrD:
  assumes "filter_row ids asm row = Inr (vid, key, val)"
  shows "Option.bind (VariationID row) py_int_str = Some vid"
    and "vid \<in> ids"
    and "\<not> (asm \<noteq> [] \<and> py_strip (or_empty (Assembly row)) \<noteq> []
            \<and> py_strip (or_empty (Assembly row)) \<noteq> asm)"
    and "\<not> is_missing (py_strip (or_empty (Chromosome row)))"
    and "\<not> is_missing (py_strip (or_empty (PositionVCF row)))"
    and "\<not> is_missing (py_strip (or_empty (ReferenceAlleleVCF row)))"
    and "\<not> is_missing (py_strip (or_empty (AlternateAlleleVCF row)))"
    and "py_isdigit (py_strip (or_empty (PositionVCF row)))"
    and "is_snv_allele (py_strip (or_empty (ReferenceAlleleVCF row)))"
    and "is_snv_allele (py_strip (or_empty (AlternateAlleleVCF row)))"
    and "val = (py_strip (or_empty (Chromosome row)), py_strip (or_empty (PositionVCF row)),
                py_upper (py_strip (or_empty (ReferenceAlleleVCF row))),
                py_upper (py_strip (or_empty (AlternateAlleleVCF row))))"
    and "key = coord_key val"
  using assms
  by (auto simp: filter_row_def Let_def split: option.splits if_splits)

lemma snv_letter_length:
  "s \<in> {str ''A'', str ''C'', str ''G'', str ''T'', str ''a'', str ''c'', str ''g'', str ''t''}
   \<Longrightarrow> length s = 1"
  unfolding str_acgt by auto

text \<open>
  C5.  A row that passes the filters has, in each of the two allele fields, after
  trimming, exactly one of the characters \<open>A C G T a c g t\<close> (so an allele of two
  characters such as \<open>AG\<close> is never kept); the tuple that is stored holds the uppercase
  letters, the key is built from them, and the loop body registers exactly this key and
  tuple under the row's identifier.
\<close>

theorem allele_filter_snv_uppercase:
  assumes "filter_row ids asm row = Inr (vid, key, chrom, pos, ref, alt)"
  shows "(let r = py_strip (or_empty (ReferenceAlleleVCF row));
              a = py_strip (or_empty (AlternateAlleleVCF row));
              letters = {str ''A'', str ''C'', str ''G'', str ''T'',
                         str ''a'', str ''c'', str ''g'', str ''t''}
          in r \<in> letters \<and> a \<in> letters \<and> length r = 1 \<and> length a = 1
             \<and> ref = py_upper r \<and> alt = py_upper a
             \<and> ref \<in> {str ''A'', str ''C'', str ''G'', str ''T''}
             \<and> alt \<in> {str ''A'', str ''C'', str ''G'', str ''T''}
             \<and> key = chrom @ str ''_'' @ pos @ str ''_'' @ ref @ str ''_'' @ alt
             \<and> candidates (process_row ids asm st row) =
                 register vid key (chrom, pos, ref, alt) (candidates st))"
proof -
  let ?r = "py_strip (or_empty (ReferenceAlleleVCF row))"
  let ?a = "py_strip (or_empty (AlternateAlleleVCF row))"
  note d = filter_row_InrD[OF assms]
  note sr = is_snv_allele_stripped[OF d(9)]
  note sa = is_snv_allele_stripped[OF d(10)]
  from d(11) have ref: "ref = py_upper ?r" and alt: "alt = py_upper ?a" by simp_all
  from d(12) have key: "key = chrom @ str ''_'' @ pos @ str ''_'' @ ref @ str ''_'' @ alt"
    by (simp add: coord_key_def)
  have reg: "candidates (process_row ids asm st row) =
      register vid key (chrom, pos, ref, alt) (candidates st)"
    by (simp add: process_row_def assms)
  from sr have c1: "?r \<in> {str ''A'', str ''C'', str ''G'', str ''T'',
                         str ''a'', str ''c'', str ''g'', str ''t''}" by (rule conjunct1)
  from sa have c2: "?a \<in> {str ''A'', str ''C'', str ''G'', str ''T'',
                         str ''a'', str ''c'', str ''g'', str ''t''}" by (rule conjunct1)
  from sr ref have c3: "ref \<in> {str ''A'', str ''C'', str ''G'', str ''T''}" by (simp only:)
  from sa alt have c4: "alt \<in> {str ''A'', str ''C'', str ''G'', str ''T''}" by (simp only:)
  show ?thesis
    unfolding Let_def
    using c1 c2 snv_letter_length[OF c1] snv_letter_length[OF c2] ref alt c3 c4 key reg
    by (intro conjI)
qed

theorem allele_filter_snv_uppercase_witness:
  "filter_row wanted_example (str ''GRCh38'') row10 =
     Inr (10, str ''1_12345_A_G'', str ''1'', str ''12345'', str ''A'', str ''G'')
   \<and> py_strip (or_empty (ReferenceAlleleVCF row10)) = str ''a''
   \<and> candidates (process_row wanted_example (str ''GRCh38'') scan_init row10) =
       [(10, [(str ''1_12345_A_G'', str ''1'', str ''12345'', str ''A'', str ''G'')])]
   \<and> filter_row wanted_example (str ''GRCh38'') row10_ag = Inl NotSNV"
proof -
  have h: "filter_row wanted_example (str ''GRCh38'') row10 =
     Inr (10, str ''1_12345_A_G'', str ''1'', str ''12345'', str ''A'', str ''G'')"
    by code_simp
  have r: "py_strip (or_empty (ReferenceAlleleVCF row10)) = str ''a''" by code_simp
  have g: "register (10::int) (str ''1_12345_A_G'') (str ''1'', str ''12345'', str ''A'', str ''G'')
             (candidates scan_init) =
           [(10, [(str ''1_12345_A_G'', str ''1'', str ''12345'', str ''A'', str ''G'')])]"
    by code_simp
  have n: "filter_row wanted_example (str ''GRCh38'') row10_ag = Inl NotSNV" by code_simp
  from allele_filter_snv_uppercase[OF h, of scan_init] h r g n
  show ?thesis by (simp add: Let_def)
qed

text \<open>
  C4.  For a row whose identifier parses and is wanted: if the configured assembly is not
  empty and the trimmed \<open>Assembly\<close> field is not empty and different from it, the row is
  rejected at the assembly test and only \<open>seen_rows\<close> changes; if the configured
  assembly or the trimmed field is empty, the outcome of the row is the outcome of the
  later tests alone (missing fields, position, alleles).
\<close>

theorem assembly_filter:
  assumes "Option.bind (VariationID row) py_int_str = Some vid" and "vid \<in> ids"
  shows "(let assembly = py_strip (or_empty (Assembly row)) in
     (asm \<noteq> [] \<and> assembly \<noteq> [] \<and> assembly \<noteq> asm \<longrightarrow>
        filter_row ids asm row = Inl WrongAssembly
        \<and> process_row ids asm st row = st\<lparr>seen_rows := seen_rows st + 1\<rparr>)
     \<and> (asm = [] \<or> assembly = [] \<longrightarrow>
        filter_row ids asm row =
         (let chrom = py_strip (or_empty (Chromosome row));
              pos = py_strip (or_empty (PositionVCF row));
              ref = py_strip (or_empty (ReferenceAlleleVCF row));
              alt = py_strip (or_empty (AlternateAlleleVCF row))
          in if is_missing chrom \<or> is_missing pos \<or> is_missing ref \<or> is_missing alt
             then Inl MissingField
             else if \<not> py_isdigit pos then Inl BadPosition
             else if \<not> (is_snv_allele ref \<and> is_snv_allele alt) then Inl NotSNV
             else Inr (vid, coord_key (chrom, pos, py_upper ref, py_upper alt),
                       (chrom, pos, py_upper ref, py_upper alt)))))"
  using assms by (simp add: filter_row_def process_row_def Let_def)

theorem assembly_filter_witness:
  "filter_row wanted_example (str ''GRCh38'') row10_grch37 = Inl WrongAssembly
   \<and> filter_row wanted_example (str ''GRCh38'') row20a =
       Inr (20, str ''X_5_C_T'', str ''X'', str ''5'', str ''C'', str ''T'')
   \<and> filter_row wanted_example [] row10_grch37 =
       Inr (10, str ''1_999_A_G'', str ''1'', str ''999'', str ''A'', str ''G'')"
proof -
  have v1: "Option.bind (VariationID row10_grch37) py_int_str = Some 10" by code_simp
  have v2: "Option.bind (VariationID row20a) py_int_str = Some 20" by code_simp
  have w1: "(10::int) \<in> wanted_example" and w2: "(20::int) \<in> wanted_example"
    by (simp_all add: wanted_example_def)
  have a1: "str ''GRCh38'' \<noteq> [] \<and> py_strip (or_empty (Assembly row10_grch37)) \<noteq> []
            \<and> py_strip (or_empty (Assembly row10_grch37)) \<noteq> str ''GRCh38''"
    by code_simp
  have a2: "py_strip (or_empty (Assembly row20a)) = []" by code_simp
  have r2: "(let chrom = py_strip (or_empty (Chromosome row20a));
              pos = py_strip (or_empty (PositionVCF row20a));
              ref = py_strip (or_empty (ReferenceAlleleVCF row20a));
              alt = py_strip (or_empty (AlternateAlleleVCF row20a))
          in if is_missing chrom \<or> is_missing pos \<or> is_missing ref \<or> is_missing alt
             then Inl MissingField
             else if \<not> py_isdigit pos then Inl BadPosition
             else if \<not> (is_snv_allele ref \<and> is_snv_allele alt) then Inl NotSNV
             else Inr (20::int, coord_key (chrom, pos, py_upper ref, py_upper alt),
                       (chrom, pos, py_upper ref, py_upper alt)))
          = Inr (20, str ''X_5_C_T'', str ''X'', str ''5'', str ''C'', str ''T'')"
    by code_simp
  have r3: "(let chrom = py_strip (or_empty (Chromosome row10_grch37));
              pos = py_strip (or_empty (PositionVCF row10_grch37));
              ref = py_strip (or_empty (ReferenceAlleleVCF row10_grch37));
              alt = py_strip (or_empty (AlternateAlleleVCF row10_grch37))
          in if is_missing chrom \<or> is_missing pos \<or> is_missing ref \<or> is_missing alt
             then Inl MissingField
             else if \<not> py_isdigit pos then Inl BadPosition
             else if \<not> (is_snv_allele ref \<and> is_snv_allele alt) then Inl NotSNV
             else Inr (10::int, coord_key (chrom, pos, py_upper ref, py_upper alt),
                       (chrom, pos, py_upper ref, py_upper alt)))
          = Inr (10, str ''1_999_A_G'', str ''1'', str ''999'', str ''A'', str ''G'')"
    by code_simp
  from assembly_filter[OF v1 w1, of "str ''GRCh38''" scan_init] a1
  have c1: "filter_row wanted_example (str ''GRCh38'') row10_grch37 = Inl WrongAssembly"
    by (simp add: Let_def)
  from assembly_filter[OF v2 w2, of "str ''GRCh38''" scan_init] a2 r2
  have c2: "filter_row wanted_example (str ''GRCh38'') row20a =
       Inr (20, str ''X_5_C_T'', str ''X'', str ''5'', str ''C'', str ''T'')"
    by (simp add: Let_def)
  from assembly_filter[OF v1 w1, of "[]" scan_init] r3
  have c3: "filter_row wanted_example [] row10_grch37 =
       Inr (10, str ''1_999_A_G'', str ''1'', str ''999'', str ''A'', str ''G'')"
    by (simp add: Let_def)
  from c1 c2 c3 show ?thesis by simp
qed

text \<open>
  C3.  The position test is \<open>str.isdigit\<close>, which also holds for digit characters outside
  \<open>0\<close>-\<open>9\<close>.  A wanted row whose position is the single character U+00B2 (SUPERSCRIPT
  TWO), which is not one of \<open>0\<close>-\<open>9\<close>, passes every filter and is registered.
\<close>

theorem superscript_position_kept:
  "py_strip (or_empty (PositionVCF row30_superscript)) = [0xB2]
   \<and> \<not> (0x30 \<le> (0xB2::nat) \<and> (0xB2::nat) \<le> 0x39)
   \<and> filter_row wanted_example (str ''GRCh38'') row30_superscript =
        Inr (30, str ''1_'' @ [0xB2] @ str ''_A_G'', str ''1'', [0xB2], str ''A'', str ''G'')
   \<and> candidates (scan_rows wanted_example (str ''GRCh38'') scan_init [row30_superscript]) =
        [(30, [(str ''1_'' @ [0xB2] @ str ''_A_G'', str ''1'', [0xB2], str ''A'', str ''G'')])]"
  by code_simp

section \<open>The scan\<close>

lemma set_update_subset: "set (AList.update k v al) \<subseteq> insert (k, v) (set al)"
  by (induction al) auto

lemma update_not_Nil: "AList.update k v al \<noteq> []"
  by (cases al) auto

lemma map_of_register:
  "map_of (register vid key val c) =
     (map_of c)(vid \<mapsto> AList.update key val (case map_of c vid of None \<Rightarrow> [] | Some m \<Rightarrow> m))"
  by (simp add: register_def update_conv')

lemma lookup2_register:
  "lookup2 (register vid key val c) v k =
     (if v = vid \<and> k = key then Some val else lookup2 c v k)"
  by (auto simp: lookup2_def map_of_register update_conv' split: option.splits)

lemma wf_register:
  assumes "wf_candidates c"
  shows "wf_candidates (register vid key val c)"
proof -
  let ?km = "case map_of c vid of None \<Rightarrow> [] | Some m \<Rightarrow> m"
  have km: "distinct (map fst ?km)"
  proof (cases "map_of c vid")
    case (Some m)
    then have "(vid, m) \<in> set c" by (rule map_of_SomeD)
    with assms have "distinct (map fst (snd (vid, m)))"
      unfolding wf_candidates_def by blast
    with Some show ?thesis by simp
  qed simp
  have d: "distinct (map fst (AList.update key val ?km))" using km by (rule distinct_update)
  have sub: "set (register vid key val c) \<subseteq> insert (vid, AList.update key val ?km) (set c)"
    unfolding register_def Let_def by (rule set_update_subset)
  have "distinct (map fst (register vid key val c))"
    unfolding register_def Let_def using assms
    by (simp add: wf_candidates_def distinct_update)
  moreover have "\<forall>e \<in> set (register vid key val c). distinct (map fst (snd e))"
  proof
    fix e assume "e \<in> set (register vid key val c)"
    with sub have "e = (vid, AList.update key val ?km) \<or> e \<in> set c" by auto
    then show "distinct (map fst (snd e))"
      using d assms unfolding wf_candidates_def by auto
  qed
  ultimately show ?thesis unfolding wf_candidates_def by simp
qed

lemma nonempty_register:
  assumes "\<forall>e \<in> set c. snd e \<noteq> []"
  shows "\<forall>e \<in> set (register vid key val c). snd e \<noteq> []"
proof
  fix e assume e: "e \<in> set (register vid key val c)"
  let ?km = "case map_of c vid of None \<Rightarrow> [] | Some m \<Rightarrow> m"
  have "set (register vid key val c) \<subseteq> insert (vid, AList.update key val ?km) (set c)"
    unfolding register_def Let_def by (rule set_update_subset)
  with e have "e = (vid, AList.update key val ?km) \<or> e \<in> set c" by auto
  then show "snd e \<noteq> []"
  proof
    assume "e = (vid, AList.update key val ?km)"
    then show ?thesis by (simp add: update_not_Nil)
  next
    assume "e \<in> set c"
    with assms show ?thesis by simp
  qed
qed

lemma holds_exactly_register:
  assumes "holds_exactly c T" and "\<forall>v'. (vid, key, v') \<in> T \<longrightarrow> v' = val"
  shows "holds_exactly (register vid key val c) (insert (vid, key, val) T)"
proof -
  from assms(1) have wf: "wf_candidates c" and ne: "\<forall>e \<in> set c. snd e \<noteq> []"
    and l: "\<And>v k x. lookup2 c v k = Some x \<longleftrightarrow> (v, k, x) \<in> T"
    unfolding holds_exactly_def by auto
  have "\<And>v k x. lookup2 (register vid key val c) v k = Some x
           \<longleftrightarrow> (v, k, x) \<in> insert (vid, key, val) T"
    unfolding lookup2_register using l assms(2) by auto
  with wf_register[OF wf] nonempty_register[OF ne]
  show ?thesis unfolding holds_exactly_def by blast
qed

lemma kept_triples_Cons:
  "kept_triples ids asm (row # rows) =
     (case filter_row ids asm row of Inl _ \<Rightarrow> [] | Inr x \<Rightarrow> [x]) @ kept_triples ids asm rows"
  by (simp add: kept_triples_def)

lemma holds_exactly_scan:
  assumes "holds_exactly (candidates st) T"
    and "key_functional (T \<union> set (kept_triples ids asm rows))"
  shows "holds_exactly (candidates (scan_rows ids asm st rows))
           (T \<union> set (kept_triples ids asm rows))"
  using assms
proof (induction rows arbitrary: st T)
  case Nil
  then show ?case by (simp add: kept_triples_def)
next
  case (Cons row rows)
  show ?case
  proof (cases "filter_row ids asm row")
    case (Inl r)
    then have "candidates (process_row ids asm st row) = candidates st"
      by (simp add: process_row_def)
    with Cons.IH[of "process_row ids asm st row" T] Cons.prems Inl
    show ?thesis by (simp add: kept_triples_Cons)
  next
    case (Inr x)
    obtain vid key val where x: "x = (vid, key, val)" by (cases x)
    have c: "candidates (process_row ids asm st row) = register vid key val (candidates st)"
      using Inr x by (simp add: process_row_def)
    have u: "T \<union> set (kept_triples ids asm (row # rows)) =
             insert (vid, key, val) T \<union> set (kept_triples ids asm rows)"
      using Inr x by (simp add: kept_triples_Cons)
    from Cons.prems(2) have "\<forall>v'. (vid, key, v') \<in> T \<longrightarrow> v' = val"
      unfolding u key_functional_def by blast
    from holds_exactly_register[OF Cons.prems(1) this]
    have "holds_exactly (candidates (process_row ids asm st row)) (insert (vid, key, val) T)"
      by (simp add: c)
    from Cons.IH[OF this] Cons.prems(2) show ?thesis
      unfolding u by simp
  qed
qed

lemma seen_rows_scan: "seen_rows (scan_rows ids asm st rows) = seen_rows st + length rows"
  by (induction rows arbitrary: st) (auto simp: process_row_def Let_def split: sum.splits)

lemma kept_rows_scan:
  "kept_rows (scan_rows ids asm st rows) = kept_rows st + length (kept_triples ids asm rows)"
  by (induction rows arbitrary: st)
     (auto simp: process_row_def Let_def kept_triples_Cons kept_triples_def split: sum.splits)

lemma length_kept_triples: "length (kept_triples ids asm rows) \<le> length rows"
  by (induction rows) (auto simp: kept_triples_Cons kept_triples_def split: sum.splits)

lemma underscore_not_digit: "\<not> py_isdigit_cp 0x5F"
  by code_simp

lemma py_isdigit_no_underscore: "py_isdigit s \<Longrightarrow> 0x5F \<notin> set s"
  using underscore_not_digit by (auto simp: py_isdigit_def list_all_iff)

lemma append_sep_unique:
  assumes "xs @ a # ys = xs' @ a # ys'" "a \<notin> set ys" "a \<notin> set ys'"
  shows "xs = xs' \<and> ys = ys'"
proof -
  from assms(1) obtain us where
    "(xs = xs' @ us \<and> us @ a # ys = a # ys') \<or> (xs @ us = xs' \<and> a # ys = us @ a # ys')"
    unfolding append_eq_append_conv2 by blast
  then show ?thesis
  proof
    assume h: "xs = xs' @ us \<and> us @ a # ys = a # ys'"
    show ?thesis
    proof (cases us)
      case Nil with h show ?thesis by simp
    next
      case (Cons u us')
      with h have "ys' = us' @ a # ys" by simp
      with assms(3) show ?thesis by simp
    qed
  next
    assume h: "xs @ us = xs' \<and> a # ys = us @ a # ys'"
    show ?thesis
    proof (cases us)
      case Nil with h show ?thesis by simp
    next
      case (Cons u us')
      with h have "ys = us' @ a # ys'" by simp
      with assms(2) show ?thesis by simp
    qed
  qed
qed

lemma str_underscore: "str ''_'' = [0x5F]"
  by (simp add: str_def)

text \<open>The key determines the tuple, when the position has no underscore and the alleles
  are single characters.\<close>

lemma coord_key_inj:
  assumes "coord_key (c, p, r, a) = coord_key (c', p', r', a')"
    and "0x5F \<notin> set p" "0x5F \<notin> set p'"
    and "length r = 1" "length r' = 1" "length a = 1" "length a' = 1"
  shows "(c, p, r, a) = (c', p', r', a')"
proof -
  from assms(4-7) obtain x y x' y' where s: "r = [x]" "a = [y]" "r' = [x']" "a' = [y']"
    by (auto simp: length_Suc_conv)
  from assms(1) have "(c @ 0x5F # p) @ [0x5F, x, 0x5F, y] = (c' @ 0x5F # p') @ [0x5F, x', 0x5F, y']"
    by (simp add: coord_key_def str_underscore s)
  then have "c @ 0x5F # p = c' @ 0x5F # p' \<and> [0x5F, x, 0x5F, y] = [0x5F, x', 0x5F, y']"
    by (subst (asm) append_eq_append_conv) simp_all
  with append_sep_unique[of c "0x5F" p c' p'] assms(2,3) s show ?thesis by simp
qed

lemma kept_triple_iff:
  "x \<in> set (kept_triples ids asm rows) \<longleftrightarrow> (\<exists>row \<in> set rows. filter_row ids asm row = Inr x)"
proof (induction rows)
  case Nil
  show ?case by (simp add: kept_triples_def)
next
  case (Cons row rows)
  show ?case
    by (cases "filter_row ids asm row") (auto simp: kept_triples_Cons Cons.IH)
qed

lemma kept_triple_valid:
  assumes "filter_row ids asm row = Inr (vid, key, c, p, r, a)"
  shows "key = coord_key (c, p, r, a) \<and> 0x5F \<notin> set p \<and> length r = 1 \<and> length a = 1"
proof -
  note d = filter_row_InrD[OF assms]
  from d(11) have p: "p = py_strip (or_empty (PositionVCF row))"
    and r: "r = py_upper (py_strip (or_empty (ReferenceAlleleVCF row)))"
    and a: "a = py_upper (py_strip (or_empty (AlternateAlleleVCF row)))" by simp_all
  from d(8) p have "0x5F \<notin> set p" by (simp add: py_isdigit_no_underscore)
  moreover from d(9) r have "length r = 1"
    by (simp add: is_snv_allele_def Let_def py_strip_idem)
  moreover from d(10) a have "length a = 1"
    by (simp add: is_snv_allele_def Let_def py_strip_idem)
  ultimately show ?thesis using d(12) by simp
qed

lemma key_functional_kept: "key_functional (set (kept_triples ids asm rows))"
  unfolding key_functional_def
proof (intro allI impI, elim conjE)
  fix vid k v v'
  assume "(vid, k, v) \<in> set (kept_triples ids asm rows)"
    and "(vid, k, v') \<in> set (kept_triples ids asm rows)"
  then obtain row row' where f: "filter_row ids asm row = Inr (vid, k, v)"
    "filter_row ids asm row' = Inr (vid, k, v')"
    unfolding kept_triple_iff by blast
  obtain c p r a where v: "v = (c, p, r, a)" by (cases v)
  obtain c' p' r' a' where v': "v' = (c', p', r', a')" by (cases v')
  from kept_triple_valid[OF f(1)[unfolded v]] kept_triple_valid[OF f(2)[unfolded v']]
  show "v = v'" unfolding v v' by (intro coord_key_inj) simp_all
qed

lemma holds_exactly_init: "holds_exactly (candidates scan_init) {}"
  by (simp add: holds_exactly_def wf_candidates_def scan_init_def lookup2_def)

text \<open>After the scan the candidates hold exactly the kept triples.\<close>

lemma scan_holds_exactly:
  "holds_exactly (candidates (scan_rows ids asm scan_init rows)) (set (kept_triples ids asm rows))"
  using holds_exactly_scan[OF holds_exactly_init, of ids asm rows] key_functional_kept[of ids asm rows]
  by simp

lemma option_eqI: "(\<And>v. a = Some v \<longleftrightarrow> b = Some v) \<Longrightarrow> a = b"
  by (cases a; cases b) auto

lemma nonempty_has_entry:
  assumes "km \<noteq> []" shows "\<exists>k v. map_of km k = Some v"
  using assms by (cases km) auto

text \<open>Candidates that hold the same triples are the same mapping.\<close>

lemma holds_exactly_mapping_eq:
  assumes "holds_exactly c T" "holds_exactly c' T"
  shows "candidate_mapping c = candidate_mapping c'"
proof
  fix vid
  have *: "candidate_mapping a vid = candidate_mapping b vid"
    if a: "holds_exactly a T" and b: "holds_exactly b T" and s: "map_of a vid = Some km"
    for a b km
  proof -
    from a have la: "\<And>k v. lookup2 a vid k = Some v \<longleftrightarrow> (vid, k, v) \<in> T"
      unfolding holds_exactly_def by blast
    from b have lb: "\<And>k v. lookup2 b vid k = Some v \<longleftrightarrow> (vid, k, v) \<in> T"
      unfolding holds_exactly_def by blast
    from s have "(vid, km) \<in> set a" by (rule map_of_SomeD)
    with a have "km \<noteq> []" unfolding holds_exactly_def by auto
    from nonempty_has_entry[OF this] obtain k v where "map_of km k = Some v" by blast
    with s have "lookup2 a vid k = Some v" by (simp add: lookup2_def)
    with la lb have "lookup2 b vid k = Some v" by simp
    then obtain km' where s': "map_of b vid = Some km'"
      by (auto simp: lookup2_def split: option.splits)
    have "map_of km = map_of km'"
    proof
      fix k
      have "lookup2 a vid k = lookup2 b vid k" by (rule option_eqI) (simp add: la lb)
      with s s' show "map_of km k = map_of km' k" by (simp add: lookup2_def)
    qed
    with s s' show ?thesis by (simp add: candidate_mapping_def)
  qed
  show "candidate_mapping c vid = candidate_mapping c' vid"
  proof (cases "map_of c vid")
    case (Some km)
    from *[OF assms this] show ?thesis .
  next
    case None
    show ?thesis
    proof (cases "map_of c' vid")
      case (Some km')
      from *[OF assms(2) assms(1) this] show ?thesis by simp
    next
      case n: None
      with None show ?thesis by (simp add: candidate_mapping_def)
    qed
  qed
qed

lemma kept_triples_set_cong:
  "set rows = set rows' \<Longrightarrow> set (kept_triples ids asm rows) = set (kept_triples ids asm rows')"
  by (auto simp: kept_triple_iff)

text \<open>
  C2.  Scanning a permutation of the rows gives the same candidates as a mapping: the
  same identifiers, and for each identifier the same mapping from keys to tuples.
\<close>

theorem scan_order_independent:
  assumes "mset rows' = mset rows"
  shows "candidate_mapping (candidates (scan_rows ids asm scan_init rows')) =
         candidate_mapping (candidates (scan_rows ids asm scan_init rows))"
proof -
  from assms have "set rows' = set rows" by (rule mset_eq_setD)
  then have "set (kept_triples ids asm rows') = set (kept_triples ids asm rows)"
    by (rule kept_triples_set_cong)
  with scan_holds_exactly[of ids asm rows'] scan_holds_exactly[of ids asm rows]
  show ?thesis by (intro holds_exactly_mapping_eq) simp_all
qed

theorem scan_order_independent_witness:
  "mset (rev rows_example) = mset rows_example
   \<and> candidate_mapping (candidates (scan_rows wanted_example (str ''GRCh38'') scan_init
         (rev rows_example))) =
       candidate_mapping (candidates (scan_rows wanted_example (str ''GRCh38'') scan_init
         rows_example))
   \<and> map fst (candidates (scan_rows wanted_example (str ''GRCh38'') scan_init
         (rev rows_example))) = [10, 20]
   \<and> map fst (candidates (scan_rows wanted_example (str ''GRCh38'') scan_init
         rows_example)) = [20, 10]"
proof -
  have m: "mset (rev rows_example) = mset rows_example" by simp
  have o1: "map fst (candidates (scan_rows wanted_example (str ''GRCh38'') scan_init
         (rev rows_example))) = [10, 20]" by code_simp
  have o2: "map fst (candidates (scan_rows wanted_example (str ''GRCh38'') scan_init
         rows_example)) = [20, 10]" by code_simp
  from scan_order_independent[OF m, of wanted_example "str ''GRCh38''"] m o1 o2
  show ?thesis by simp
qed

section \<open>The tables\<close>

lemma write_unique_eq:
  "write_unique vid item t =
     t\<lparr>unique_table := unique_table t @ [unique_row_of vid item],
       unique_written := unique_written t + 1\<rparr>"
  by (simp add: write_unique_def unique_row_of_def split: prod.splits)

lemma write_ambiguous_eq:
  "write_ambiguous vid n item t =
     t\<lparr>ambiguous_table := ambiguous_table t @ [ambiguous_row_of vid n item],
       ambiguous_written := ambiguous_written t + 1\<rparr>"
  by (simp add: write_ambiguous_def ambiguous_row_of_def split: prod.splits)

lemma fold_write_ambiguous:
  "fold (write_ambiguous vid n) items t =
     t\<lparr>ambiguous_table := ambiguous_table t @ map (ambiguous_row_of vid n) items,
       ambiguous_written := ambiguous_written t + length items\<rparr>"
  by (induction items arbitrary: t) (simp_all add: write_ambiguous_eq)

lemma emit_entry_eq:
  "emit_entry e t =
     t\<lparr>unique_table := unique_table t @ entry_unique_rows e,
       ambiguous_table := ambiguous_table t @ entry_ambiguous_rows e,
       unique_written := unique_written t + length (entry_unique_rows e),
       ambiguous_written := ambiguous_written t + length (entry_ambiguous_rows e)\<rparr>"
proof (cases e)
  case (Pair vid km)
  show ?thesis
  proof (cases "length km = 1")
    case True
    then obtain item where "km = [item]" by (cases km) auto
    then show ?thesis
      by (simp add: Pair emit_entry_def entry_unique_rows_def entry_ambiguous_rows_def
          write_unique_eq)
  next
    case False
    then show ?thesis
      by (simp add: Pair emit_entry_def entry_unique_rows_def entry_ambiguous_rows_def
          fold_write_ambiguous)
  qed
qed

lemma fold_emit_entry:
  "fold emit_entry es t =
     t\<lparr>unique_table := unique_table t @ concat (map entry_unique_rows es),
       ambiguous_table := ambiguous_table t @ concat (map entry_ambiguous_rows es),
       unique_written := unique_written t + length (concat (map entry_unique_rows es)),
       ambiguous_written :=
         ambiguous_written t + length (concat (map entry_ambiguous_rows es))\<rparr>"
  by (induction es arbitrary: t) (simp_all add: emit_entry_eq)

lemma write_tables_eq:
  "write_tables c =
     \<lparr>unique_table = concat (map entry_unique_rows (sort_key fst c)),
      ambiguous_table = concat (map entry_ambiguous_rows (sort_key fst c)),
      unique_written = length (concat (map entry_unique_rows (sort_key fst c))),
      ambiguous_written = length (concat (map entry_ambiguous_rows (sort_key fst c)))\<rparr>"
  by (simp add: write_tables_def fold_emit_entry out_init_def)

lemma entry_rows_length:
  "length (entry_unique_rows e) + length (entry_ambiguous_rows e) = length (snd e)"
  by (simp add: entry_unique_rows_def entry_ambiguous_rows_def)

lemma written_total:
  "length (concat (map entry_unique_rows es)) + length (concat (map entry_ambiguous_rows es))
     = (\<Sum>e\<leftarrow>es. length (snd e))"
proof (induction es)
  case (Cons e es)
  then show ?case using entry_rows_length[of e] by simp
qed simp

lemma total_sort_key: "(\<Sum>e\<leftarrow>sort_key f es. length (snd e)) = (\<Sum>e\<leftarrow>es. length (snd e))"
proof -
  have "mset (map (\<lambda>e. length (snd e)) (sort_key f es)) = mset (map (\<lambda>e. length (snd e)) es)"
    by simp
  then have "sum_mset (mset (map (\<lambda>e. length (snd e)) (sort_key f es))) =
             sum_mset (mset (map (\<lambda>e. length (snd e)) es))" by (rule arg_cong)
  then show ?thesis unfolding sum_mset_sum_list .
qed

lemma total_update:
  "(\<Sum>e\<leftarrow>AList.update k v al. length (snd e))
     + (case map_of al k of None \<Rightarrow> 0 | Some v0 \<Rightarrow> length v0)
   = (\<Sum>e\<leftarrow>al. length (snd e)) + length v"
  by (induction al) auto

lemma length_update_le: "length (AList.update k v al) \<le> Suc (length al)"
  by (induction al) auto

lemma total_register:
  "(\<Sum>e\<leftarrow>register vid key val c. length (snd e)) \<le> Suc (\<Sum>e\<leftarrow>c. length (snd e))"
proof -
  let ?km = "case map_of c vid of None \<Rightarrow> [] | Some m \<Rightarrow> m"
  have "(case map_of c vid of None \<Rightarrow> 0 | Some v0 \<Rightarrow> length v0) = length ?km"
    by (simp split: option.splits)
  with total_update[of vid "AList.update key val ?km" c]
  have "(\<Sum>e\<leftarrow>register vid key val c. length (snd e)) + length ?km
        = (\<Sum>e\<leftarrow>c. length (snd e)) + length (AList.update key val ?km)"
    by (simp add: register_def Let_def)
  with length_update_le[of key val ?km] show ?thesis by linarith
qed

lemma total_scan:
  "(\<Sum>e\<leftarrow>candidates (scan_rows ids asm st rows). length (snd e)) + kept_rows st
     \<le> (\<Sum>e\<leftarrow>candidates st. length (snd e)) + kept_rows (scan_rows ids asm st rows)"
proof (induction rows arbitrary: st)
  case Nil
  show ?case by simp
next
  case (Cons row rows)
  show ?case
  proof (cases "filter_row ids asm row")
    case (Inl r)
    with Cons[of "process_row ids asm st row"] show ?thesis
      by (simp add: process_row_def)
  next
    case (Inr x)
    obtain vid key val where x: "x = (vid, key, val)" by (cases x)
    from Inr x have c: "candidates (process_row ids asm st row) = register vid key val (candidates st)"
      and k: "kept_rows (process_row ids asm st row) = Suc (kept_rows st)"
      by (simp_all add: process_row_def)
    from Cons[of "process_row ids asm st row"] total_register[of vid key val "candidates st"]
    show ?thesis unfolding c k by simp
  qed
qed

section \<open>The counters of a run\<close>

lemma main_InrD:
  assumes "main a pkl clinvar = Inr rep"
  shows "read_ids (opt_max_ids a) {} pkl = Inr (collected_ids rep)"
    and "scanned rep = scan_rows (collected_ids rep) (opt_assembly a) scan_init clinvar"
    and "written rep = write_tables (candidates (scanned rep))"
  using assms by (auto simp: main_def Let_def split: sum.splits)

text \<open>
  C10.  At the end of a run \<open>kept_rows\<close> is at most \<open>seen_rows\<close>, and the number of
  rows written to the two tables together is at most \<open>kept_rows\<close>.  The two written
  counters are the lengths of the tables, and \<open>seen_rows\<close> is the number of rows read.
\<close>

theorem counters_bounded:
  assumes "main a pkl clinvar = Inr rep"
  shows "kept_rows (scanned rep) \<le> seen_rows (scanned rep)
     \<and> unique_written (written rep) + ambiguous_written (written rep) \<le> kept_rows (scanned rep)
     \<and> seen_rows (scanned rep) = length clinvar
     \<and> unique_written (written rep) = length (unique_table (written rep))
     \<and> ambiguous_written (written rep) = length (ambiguous_table (written rep))"
proof -
  note m = main_InrD[OF assms]
  let ?ids = "collected_ids rep" and ?asm = "opt_assembly a"
  have s: "seen_rows (scanned rep) = length clinvar"
    unfolding m(2) by (simp add: seen_rows_scan scan_init_def)
  have k: "kept_rows (scanned rep) = length (kept_triples ?ids ?asm clinvar)"
    unfolding m(2) by (simp add: kept_rows_scan scan_init_def)
  have "unique_written (written rep) + ambiguous_written (written rep)
          = (\<Sum>e\<leftarrow>candidates (scanned rep). length (snd e))"
    unfolding m(3) by (simp add: write_tables_eq written_total total_sort_key)
  also have "\<dots> \<le> kept_rows (scanned rep)"
    using total_scan[of ?ids ?asm scan_init clinvar] unfolding m(2)
    by (simp add: scan_init_def)
  finally have w: "unique_written (written rep) + ambiguous_written (written rep)
                    \<le> kept_rows (scanned rep)" .
  have u: "unique_written (written rep) = length (unique_table (written rep))"
    and b: "ambiguous_written (written rep) = length (ambiguous_table (written rep))"
    unfolding m(3) by (simp_all add: write_tables_eq)
  from s k w u b length_kept_triples[of ?ids ?asm clinvar] show ?thesis by simp
qed

theorem counters_bounded_witness:
  "(case main args_example pkl_example rows_example of
      Inl e \<Rightarrow> False
    | Inr rep \<Rightarrow>
        seen_rows (scanned rep) = 7 \<and> kept_rows (scanned rep) = 4
        \<and> unique_written (written rep) = 1 \<and> ambiguous_written (written rep) = 2
        \<and> kept_rows (scanned rep) \<le> seen_rows (scanned rep)
        \<and> unique_written (written rep) + ambiguous_written (written rep)
             \<le> kept_rows (scanned rep))"
proof -
  have c: "(case main args_example pkl_example rows_example of
      Inl e \<Rightarrow> False
    | Inr rep \<Rightarrow>
        seen_rows (scanned rep) = 7 \<and> kept_rows (scanned rep) = 4
        \<and> unique_written (written rep) = 1 \<and> ambiguous_written (written rep) = 2)"
    by code_simp
  then obtain rep where r: "main args_example pkl_example rows_example = Inr rep"
    by (cases "main args_example pkl_example rows_example") auto
  from counters_bounded[OF r] c show ?thesis unfolding r by simp
qed

section \<open>The partition into unique and ambiguous identifiers\<close>

lemma sorted_entries:
  assumes "distinct (map fst c)"
  shows "sorted_wrt (<) (map fst (sort_key fst c))"
    and "distinct (map fst (sort_key fst c))"
    and "set (sort_key fst c) = set c"
proof -
  have "mset (map fst (sort_key fst c)) = mset (map fst c)" by simp
  then have "distinct (map fst (sort_key fst c)) \<longleftrightarrow> distinct (map fst c)"
    by (rule mset_eq_imp_distinct_iff)
  with assms show d: "distinct (map fst (sort_key fst c))" by simp
  have "sorted (map fst (sort_key fst c))" by (rule sorted_sort_key)
  with d show "sorted_wrt (<) (map fst (sort_key fst c))" by (simp add: strict_sorted_iff)
  show "set (sort_key fst c) = set c" by simp
qed

lemma map_of_sort_key:
  assumes "distinct (map fst c)"
  shows "map_of (sort_key fst c) = map_of c"
  using sorted_entries(2,3)[OF assms] assms by (simp add: map_of_inject_set)

lemma entry_unique_rows_id: "r \<in> set (entry_unique_rows e) \<Longrightarrow> pickle_ID r = fst e"
  by (auto simp: entry_unique_rows_def unique_row_of_def split: if_splits prod.splits)

lemma entry_ambiguous_rows_id:
  "r \<in> set (entry_ambiguous_rows e) \<Longrightarrow> pickle_ID r = fst e \<and> n_candidates r = length (snd e)"
  by (auto simp: entry_ambiguous_rows_def ambiguous_row_of_def split: if_splits prod.splits)

lemma filter_concat_entries:
  assumes "distinct (map fst es)" and "\<And>e r. e \<in> set es \<Longrightarrow> r \<in> set (f e) \<Longrightarrow> idf r = fst e"
  shows "filter (\<lambda>r. idf r = vid) (concat (map f es)) =
           (case map_of es vid of None \<Rightarrow> [] | Some km \<Rightarrow> f (vid, km))"
  using assms
proof (induction es)
  case Nil
  show ?case by simp
next
  case (Cons e es)
  obtain v km where e: "e = (v, km)" by (cases e)
  from Cons.prems(1) have d: "distinct (map fst es)" and n: "v \<notin> fst ` set es"
    by (simp_all add: e)
  have ih: "filter (\<lambda>r. idf r = vid) (concat (map f es)) =
           (case map_of es vid of None \<Rightarrow> [] | Some km \<Rightarrow> f (vid, km))"
    by (rule Cons.IH[OF d]) (simp add: Cons.prems(2))
  have here: "\<And>r. r \<in> set (f e) \<Longrightarrow> idf r = v"
    using Cons.prems(2)[of e] by (simp add: e)
  show ?case
  proof (cases "v = vid")
    case True
    with n have "map_of es vid = None" by (simp add: map_of_eq_None_iff)
    with ih have "filter (\<lambda>r. idf r = vid) (concat (map f es)) = []" by simp
    moreover from here True have "filter (\<lambda>r. idf r = vid) (f e) = f e"
      by (simp add: filter_id_conv)
    ultimately show ?thesis using True by (simp add: e)
  next
    case False
    with here have "filter (\<lambda>r. idf r = vid) (f e) = []"
      by (auto simp: filter_empty_conv)
    with ih False show ?thesis by (simp add: e)
  qed
qed

lemma rows_with_id_unique:
  assumes "distinct (map fst c)"
  shows "rows_with_id vid (unique_table (write_tables c)) =
           (case map_of c vid of None \<Rightarrow> [] | Some km \<Rightarrow> entry_unique_rows (vid, km))"
  unfolding rows_with_id_def write_tables_eq
  using filter_concat_entries[of "sort_key fst c" entry_unique_rows pickle_ID vid]
    sorted_entries(2)[OF assms] entry_unique_rows_id map_of_sort_key[OF assms]
  by simp

lemma rows_with_id_ambiguous:
  assumes "distinct (map fst c)"
  shows "rows_with_id vid (ambiguous_table (write_tables c)) =
           (case map_of c vid of None \<Rightarrow> [] | Some km \<Rightarrow> entry_ambiguous_rows (vid, km))"
  unfolding rows_with_id_def write_tables_eq
  using filter_concat_entries[of "sort_key fst c" entry_ambiguous_rows pickle_ID vid]
    sorted_entries(2)[OF assms] entry_ambiguous_rows_id map_of_sort_key[OF assms]
  by simp

lemma surviving_iff:
  "val \<in> surviving ids asm rows vid \<longleftrightarrow> (\<exists>key. (vid, key, val) \<in> set (kept_triples ids asm rows))"
  unfolding surviving_def by force

lemma kept_key: "(vid, key, val) \<in> set (kept_triples ids asm rows) \<Longrightarrow> key = coord_key val"
proof -
  assume "(vid, key, val) \<in> set (kept_triples ids asm rows)"
  then obtain row where "filter_row ids asm row = Inr (vid, key, val)"
    unfolding kept_triple_iff by blast
  from filter_row_InrD(12)[OF this] show ?thesis .
qed

lemma surviving_count:
  assumes "holds_exactly c (set (kept_triples ids asm rows))"
  shows "case map_of c vid of
           None \<Rightarrow> surviving ids asm rows vid = {}
         | Some km \<Rightarrow> length km = card (surviving ids asm rows vid) \<and> km \<noteq> []"
proof (cases "map_of c vid")
  case None
  have "surviving ids asm rows vid = {}"
  proof (rule ccontr)
    assume "surviving ids asm rows vid \<noteq> {}"
    then obtain val key where "(vid, key, val) \<in> set (kept_triples ids asm rows)"
      unfolding surviving_iff ex_in_conv[symmetric] by blast
    with assms have "lookup2 c vid key = Some val" unfolding holds_exactly_def by blast
    with None show False by (simp add: lookup2_def)
  qed
  with None show ?thesis by simp
next
  case (Some km)
  then have mem: "(vid, km) \<in> set c" by (rule map_of_SomeD)
  with assms have dk: "distinct (map fst km)" and ne: "km \<noteq> []"
    unfolding holds_exactly_def wf_candidates_def by auto
  have ent: "(k, v) \<in> set km \<longleftrightarrow> (vid, k, v) \<in> set (kept_triples ids asm rows)" for k v
  proof -
    have "(k, v) \<in> set km \<longleftrightarrow> map_of km k = Some v" using dk by simp
    also have "\<dots> \<longleftrightarrow> lookup2 c vid k = Some v" using Some by (simp add: lookup2_def)
    also have "\<dots> \<longleftrightarrow> (vid, k, v) \<in> set (kept_triples ids asm rows)"
      using assms unfolding holds_exactly_def by blast
    finally show ?thesis .
  qed
  have img: "snd ` set km = surviving ids asm rows vid"
  proof (intro set_eqI iffI)
    fix v assume "v \<in> snd ` set km"
    then obtain k where "(k, v) \<in> set km" by auto
    then show "v \<in> surviving ids asm rows vid" unfolding surviving_iff ent by blast
  next
    fix v assume "v \<in> surviving ids asm rows vid"
    then obtain k where "(k, v) \<in> set km" unfolding surviving_iff ent[symmetric] by blast
    then show "v \<in> snd ` set km" by force
  qed
  have inj: "inj_on snd (set km)"
  proof (rule inj_onI)
    fix a b assume a: "a \<in> set km" and b: "b \<in> set km" and s: "snd a = snd b"
    from a have "fst a = coord_key (snd a)"
      using ent[of "fst a" "snd a"] kept_key[of vid "fst a" "snd a" ids asm rows] by simp
    moreover from b have "fst b = coord_key (snd b)"
      using ent[of "fst b" "snd b"] kept_key[of vid "fst b" "snd b" ids asm rows] by simp
    ultimately show "a = b" using s by (simp add: prod_eq_iff)
  qed
  from dk have "distinct km" by (simp add: distinct_map)
  then have "length km = card (set km)" by (simp add: distinct_card)
  also have "\<dots> = card (snd ` set km)" using inj by (simp add: card_image)
  finally have "length km = card (surviving ids asm rows vid)" by (simp add: img)
  with ne Some show ?thesis by simp
qed

text \<open>
  C1.  Let \<open>n\<close> be the number of distinct coordinate tuples that survive the filters for
  an identifier.  The completed candidates have no entry for the identifier when \<open>n\<close> is
  0, and otherwise an entry with \<open>n\<close> items.  If \<open>n\<close> is 1 the identifier has exactly one
  row in the unique table and none in the ambiguous table; if \<open>n\<close> is at least 2 it has
  exactly \<open>n\<close> rows in the ambiguous table, each with \<open>n_candidates = n\<close>, and none in the
  unique table; if \<open>n\<close> is 0 it has no row in either table.
\<close>

theorem partition_by_candidate_count:
  "(let cands = candidates (scan_rows ids asm scan_init rows);
        t = write_tables cands;
        n = card (surviving ids asm rows vid);
        u = rows_with_id vid (unique_table t);
        a = rows_with_id vid (ambiguous_table t)
    in (case map_of cands vid of None \<Rightarrow> n = 0 | Some key_map \<Rightarrow> length key_map = n \<and> 1 \<le> n)
       \<and> (n = 1 \<longrightarrow> length u = 1 \<and> a = [])
       \<and> (2 \<le> n \<longrightarrow> length a = n \<and> (\<forall>r \<in> set a. n_candidates r = n) \<and> u = [])
       \<and> (n = 0 \<longrightarrow> u = [] \<and> a = []))"
proof -
  let ?c = "candidates (scan_rows ids asm scan_init rows)"
  have h: "holds_exactly ?c (set (kept_triples ids asm rows))" by (rule scan_holds_exactly)
  then have d: "distinct (map fst ?c)" unfolding holds_exactly_def wf_candidates_def by simp
  note sc = surviving_count[OF h, of vid]
  note u = rows_with_id_unique[OF d, of vid]
  note a = rows_with_id_ambiguous[OF d, of vid]
  show ?thesis
  proof (cases "map_of ?c vid")
    case None
    with sc u a show ?thesis by (simp add: Let_def)
  next
    case (Some km)
    with sc have n: "length km = card (surviving ids asm rows vid)" and ne: "km \<noteq> []" by simp_all
    from ne have pos: "1 \<le> length km" by (cases km) simp_all
    have amb: "\<forall>r \<in> set (entry_ambiguous_rows (vid, km)). n_candidates r = length km"
      using entry_ambiguous_rows_id[of _ "(vid, km)"] by simp
    have lu: "length (entry_unique_rows (vid, km)) = (if length km = 1 then 1 else 0)"
      by (simp add: entry_unique_rows_def)
    have la: "length (entry_ambiguous_rows (vid, km)) = (if length km = 1 then 0 else length km)"
      by (simp add: entry_ambiguous_rows_def)
    from Some n pos amb lu la show ?thesis
      unfolding Let_def u a by (auto simp: n[symmetric])
  qed
qed

theorem partition_by_candidate_count_witness:
  "card (surviving wanted_example (str ''GRCh38'') rows_example 10) = 1
   \<and> length (rows_with_id 10 (unique_table (resolve wanted_example (str ''GRCh38'') rows_example))) = 1
   \<and> rows_with_id 10 (ambiguous_table (resolve wanted_example (str ''GRCh38'') rows_example)) = []
   \<and> card (surviving wanted_example (str ''GRCh38'') rows_example 20) = 2
   \<and> length (rows_with_id 20 (ambiguous_table (resolve wanted_example (str ''GRCh38'') rows_example))) = 2
   \<and> list_all (\<lambda>r. n_candidates r = 2)
        (rows_with_id 20 (ambiguous_table (resolve wanted_example (str ''GRCh38'') rows_example)))
   \<and> rows_with_id 20 (unique_table (resolve wanted_example (str ''GRCh38'') rows_example)) = []
   \<and> card (surviving wanted_example (str ''GRCh38'') rows_example 30) = 0
   \<and> rows_with_id 30 (unique_table (resolve wanted_example (str ''GRCh38'') rows_example)) = []
   \<and> rows_with_id 30 (ambiguous_table (resolve wanted_example (str ''GRCh38'') rows_example)) = []"
proof -
  have n10: "card (surviving wanted_example (str ''GRCh38'') rows_example 10) = 1"
    and n20: "card (surviving wanted_example (str ''GRCh38'') rows_example 20) = 2"
    and n30: "card (surviving wanted_example (str ''GRCh38'') rows_example 30) = 0"
    by code_simp+
  from partition_by_candidate_count[of wanted_example "str ''GRCh38''" rows_example 10] n10
  have c10: "length (rows_with_id 10 (unique_table (resolve wanted_example (str ''GRCh38'') rows_example))) = 1
     \<and> rows_with_id 10 (ambiguous_table (resolve wanted_example (str ''GRCh38'') rows_example)) = []"
    by (simp add: Let_def resolve_def)
  from partition_by_candidate_count[of wanted_example "str ''GRCh38''" rows_example 20] n20
  have c20: "length (rows_with_id 20 (ambiguous_table (resolve wanted_example (str ''GRCh38'') rows_example))) = 2
     \<and> list_all (\<lambda>r. n_candidates r = 2)
        (rows_with_id 20 (ambiguous_table (resolve wanted_example (str ''GRCh38'') rows_example)))
     \<and> rows_with_id 20 (unique_table (resolve wanted_example (str ''GRCh38'') rows_example)) = []"
    by (simp add: Let_def resolve_def list_all_iff)
  from partition_by_candidate_count[of wanted_example "str ''GRCh38''" rows_example 30] n30
  have c30: "rows_with_id 30 (unique_table (resolve wanted_example (str ''GRCh38'') rows_example)) = []
     \<and> rows_with_id 30 (ambiguous_table (resolve wanted_example (str ''GRCh38'') rows_example)) = []"
    by (simp add: Let_def resolve_def)
  from n10 n20 n30 c10 c20 c30 show ?thesis by simp
qed

section \<open>The order of the tables\<close>

lemma sorted_pairs_strict:
  fixes xs :: "('a::linorder \<times> 'b::linorder) list"
  assumes "sorted xs" "distinct (map fst xs)"
  shows "sorted_wrt (\<lambda>a b. fst a < fst b) xs"
proof -
  from assms(1) have "sorted_wrt (\<lambda>a b. fst a \<le> fst b) xs"
    by (rule sorted_wrt_mono_rel[rotated]) (auto simp: less_eq_prod_def)
  then have "sorted (map fst xs)" by (simp add: sorted_map)
  with assms(2) have "sorted_wrt (<) (map fst xs)" by (simp add: strict_sorted_iff)
  then show ?thesis by (simp add: sorted_wrt_map)
qed

lemma entry_unique_rows_short: "length (entry_unique_rows e) \<le> 1"
  by (simp add: entry_unique_rows_def)

lemma sorted_wrt_short: "length xs \<le> 1 \<Longrightarrow> sorted_wrt P xs"
  by (cases xs) (auto simp: le_Suc_eq)

lemma unique_rows_sorted:
  assumes "sorted_wrt (<) (map fst es)"
  shows "sorted_wrt (\<lambda>r s. pickle_ID r < pickle_ID s) (concat (map entry_unique_rows es))"
  using assms
proof (induction es)
  case Nil
  show ?case by simp
next
  case (Cons e es)
  from Cons.prems have lt: "\<forall>e' \<in> set es. fst e < fst e'" and rest: "sorted_wrt (<) (map fst es)"
    by auto
  have cross: "pickle_ID r < pickle_ID s"
    if "r \<in> set (entry_unique_rows e)" "s \<in> set (concat (map entry_unique_rows es))" for r s
  proof -
    from that(2) obtain e' where e': "e' \<in> set es" "s \<in> set (entry_unique_rows e')" by auto
    from entry_unique_rows_id[OF that(1)] entry_unique_rows_id[OF e'(2)] lt e'(1)
    show ?thesis by simp
  qed
  from Cons.IH[OF rest] cross sorted_wrt_short[OF entry_unique_rows_short[of e]]
  show ?case by (simp add: sorted_wrt_append)
qed

lemma ambiguous_row_fields:
  "pickle_ID (ambiguous_row_of v n item) = v"
  "chr_pos_ref_alt (ambiguous_row_of v n item) = fst item"
  by (simp_all add: ambiguous_row_of_def split: prod.splits)

lemma entry_ambiguous_rows_sorted:
  assumes "distinct (map fst (snd e))"
  shows "sorted_wrt (\<lambda>r s. pickle_ID r < pickle_ID s
            \<or> (pickle_ID r = pickle_ID s \<and> chr_pos_ref_alt r < chr_pos_ref_alt s))
          (entry_ambiguous_rows e)"
proof -
  have "mset (map fst (sort (snd e))) = mset (map fst (snd e))" by simp
  then have "distinct (map fst (sort (snd e))) \<longleftrightarrow> distinct (map fst (snd e))"
    by (rule mset_eq_imp_distinct_iff)
  with assms have "distinct (map fst (sort (snd e)))" by simp
  with sorted_pairs_strict[of "sort (snd e)"]
  have "sorted_wrt (\<lambda>a b. fst a < fst b) (sort (snd e))" by simp
  then show ?thesis
    by (simp add: entry_ambiguous_rows_def sorted_wrt_map ambiguous_row_fields)
qed

lemma ambiguous_rows_sorted:
  assumes "sorted_wrt (<) (map fst es)" and "\<forall>e \<in> set es. distinct (map fst (snd e))"
  shows "sorted_wrt (\<lambda>r s. pickle_ID r < pickle_ID s
            \<or> (pickle_ID r = pickle_ID s \<and> chr_pos_ref_alt r < chr_pos_ref_alt s))
          (concat (map entry_ambiguous_rows es))"
  using assms
proof (induction es)
  case Nil
  show ?case by simp
next
  case (Cons e es)
  from Cons.prems have lt: "\<forall>e' \<in> set es. fst e < fst e'" and rest: "sorted_wrt (<) (map fst es)"
    and d: "distinct (map fst (snd e))" and ds: "\<forall>e \<in> set es. distinct (map fst (snd e))"
    by auto
  have cross: "pickle_ID r < pickle_ID s"
    if "r \<in> set (entry_ambiguous_rows e)" "s \<in> set (concat (map entry_ambiguous_rows es))" for r s
  proof -
    from that(2) obtain e' where e': "e' \<in> set es" "s \<in> set (entry_ambiguous_rows e')" by auto
    from entry_ambiguous_rows_id[OF that(1)] entry_ambiguous_rows_id[OF e'(2)] lt e'(1)
    show ?thesis by simp
  qed
  from Cons.IH[OF rest ds] cross entry_ambiguous_rows_sorted[OF d]
  show ?case by (simp add: sorted_wrt_append)
qed

text \<open>
  C7.  The rows of the unique table are in strictly ascending order of identifier.  The
  rows of the ambiguous table are in ascending order of identifier, and rows with the
  same identifier are in strictly ascending lexical order of their key string.
\<close>

theorem tables_sorted:
  "(let t = resolve ids asm rows
    in sorted_wrt (\<lambda>r s. pickle_ID r < pickle_ID s) (unique_table t)
       \<and> sorted_wrt (\<lambda>r s. pickle_ID r < pickle_ID s
            \<or> (pickle_ID r = pickle_ID s \<and> chr_pos_ref_alt r < chr_pos_ref_alt s))
          (ambiguous_table t))"
proof -
  let ?c = "candidates (scan_rows ids asm scan_init rows)"
  have "holds_exactly ?c (set (kept_triples ids asm rows))" by (rule scan_holds_exactly)
  then have d: "distinct (map fst ?c)" and ds: "\<forall>e \<in> set ?c. distinct (map fst (snd e))"
    unfolding holds_exactly_def wf_candidates_def by simp_all
  note s = sorted_entries[OF d]
  from ds s(3) have ds': "\<forall>e \<in> set (sort_key fst ?c). distinct (map fst (snd e))" by simp
  from unique_rows_sorted[OF s(1)] ambiguous_rows_sorted[OF s(1) ds']
  show ?thesis by (simp add: Let_def resolve_def write_tables_eq)
qed

section \<open>Where the output comes from\<close>

lemma entry_in_kept:
  assumes "holds_exactly c T" "(vid, km) \<in> set c" "(k, v) \<in> set km"
  shows "(vid, k, v) \<in> T"
proof -
  from assms(1) have d: "distinct (map fst c)" and ds: "\<forall>e \<in> set c. distinct (map fst (snd e))"
    and l: "\<And>vid k v. lookup2 c vid k = Some v \<longleftrightarrow> (vid, k, v) \<in> T"
    unfolding holds_exactly_def wf_candidates_def by auto
  from d assms(2) have "map_of c vid = Some km" by simp
  moreover from ds assms(2) have "distinct (map fst km)" by auto
  with assms(3) have "map_of km k = Some v" by simp
  ultimately have "lookup2 c vid k = Some v" by (simp add: lookup2_def)
  then show ?thesis by (simp add: l)
qed

lemma entry_from_row:
  assumes "(vid, km) \<in> set (candidates (scan_rows ids asm scan_init rows))" "(k, v) \<in> set km"
  shows "\<exists>row \<in> set rows. filter_row ids asm row = Inr (vid, k, v)"
  using entry_in_kept[OF scan_holds_exactly assms] unfolding kept_triple_iff .

lemma entry_id_wanted:
  assumes "e \<in> set (candidates (scan_rows ids asm scan_init rows))"
  shows "fst e \<in> ids"
proof -
  obtain vid km where e: "e = (vid, km)" by (cases e)
  have "holds_exactly (candidates (scan_rows ids asm scan_init rows)) (set (kept_triples ids asm rows))"
    by (rule scan_holds_exactly)
  with assms have "km \<noteq> []" unfolding holds_exactly_def e by auto
  then have "hd km \<in> set km" by simp
  moreover obtain k v where "hd km = (k, v)" by (cases "hd km")
  ultimately have "(k, v) \<in> set km" by simp
  from entry_from_row[OF assms[unfolded e] \<open>(k, v) \<in> set km\<close>] obtain row
    where "filter_row ids asm row = Inr (vid, k, v)" by blast
  from filter_row_InrD(2)[OF this] show ?thesis by (simp add: e)
qed

lemma table_ids_wanted:
  "r \<in> set (unique_table (write_tables (candidates (scan_rows ids asm scan_init rows))))
     \<Longrightarrow> pickle_ID r \<in> ids"
  "s \<in> set (ambiguous_table (write_tables (candidates (scan_rows ids asm scan_init rows))))
     \<Longrightarrow> pickle_ID s \<in> ids"
proof -
  let ?c = "candidates (scan_rows ids asm scan_init rows)"
  assume "r \<in> set (unique_table (write_tables ?c))"
  then obtain e where "e \<in> set ?c" "r \<in> set (entry_unique_rows e)"
    by (auto simp: write_tables_eq)
  with entry_unique_rows_id[of r e] entry_id_wanted[of e ids asm rows]
  show "pickle_ID r \<in> ids" by simp
next
  let ?c = "candidates (scan_rows ids asm scan_init rows)"
  assume "s \<in> set (ambiguous_table (write_tables ?c))"
  then obtain e where "e \<in> set ?c" "s \<in> set (entry_ambiguous_rows e)"
    by (auto simp: write_tables_eq)
  with entry_ambiguous_rows_id[of s e] entry_id_wanted[of e ids asm rows]
  show "pickle_ID s \<in> ids" by simp
qed

text \<open>
  C6.  Every row of the two tables carries a wanted identifier (\<open>table_ids_wanted\<close>), and
  every item of the candidates comes from a row that \<open>filter_row\<close> kept
  (\<open>entry_from_row\<close>).  But the position test of \<open>filter_row\<close> is \<open>str.isdigit\<close>: in the run
  below the only reference row has the position U+00B2 (SUPERSCRIPT TWO), which does not
  consist of decimal digits, and yet its key and tuple are the candidates of identifier 30
  and a row of the unique table.
\<close>

theorem superscript_row_reaches_output:
  "\<not> spec_decimal_position (py_strip (or_empty (PositionVCF row30_superscript)))
   \<and> (case main args_example pkl_example [row30_superscript] of
        Inl e \<Rightarrow> False
      | Inr rep \<Rightarrow>
          collected_ids rep = {10, 20, 30}
          \<and> candidates (scanned rep) =
               [(30, [(str ''1_'' @ [0xB2] @ str ''_A_G'', str ''1'', [0xB2], str ''A'', str ''G'')])]
          \<and> map pickle_ID (unique_table (written rep)) = [30]
          \<and> map out_PositionVCF (unique_table (written rep)) = [[0xB2]]
          \<and> ambiguous_table (written rep) = [])"
  by code_simp

section \<open>Independence of the insertion order\<close>

lemma entry_rows_sort:
  "entry_unique_rows (fst e, sort (snd e)) = entry_unique_rows e"
  "entry_ambiguous_rows (fst e, sort (snd e)) = entry_ambiguous_rows e"
proof -
  show "entry_unique_rows (fst e, sort (snd e)) = entry_unique_rows e"
  proof (cases "length (snd e) = 1")
    case True
    then obtain x where "snd e = [x]" by (cases "snd e") auto
    then show ?thesis by (simp add: entry_unique_rows_def)
  next
    case False
    then show ?thesis by (simp add: entry_unique_rows_def)
  qed
  show "entry_ambiguous_rows (fst e, sort (snd e)) = entry_ambiguous_rows e"
    by (simp add: entry_ambiguous_rows_def sorted_sort_id)
qed

lemma write_tables_canon:
  "write_tables c =
     \<lparr>unique_table =
        concat (map entry_unique_rows (map (\<lambda>e. (fst e, sort (snd e))) (sort_key fst c))),
      ambiguous_table =
        concat (map entry_ambiguous_rows (map (\<lambda>e. (fst e, sort (snd e))) (sort_key fst c))),
      unique_written =
        length (concat (map entry_unique_rows
                  (map (\<lambda>e. (fst e, sort (snd e))) (sort_key fst c)))),
      ambiguous_written =
        length (concat (map entry_ambiguous_rows
                  (map (\<lambda>e. (fst e, sort (snd e))) (sort_key fst c))))\<rparr>"
  by (simp add: write_tables_eq comp_def entry_rows_sort)

lemma sort_eq_of_map_of_eq:
  fixes km km' :: "('a::linorder \<times> 'b::linorder) list"
  assumes "distinct (map fst km)" "distinct (map fst km')" "map_of km = map_of km'"
  shows "sort km = sort km'"
proof -
  from assms have "set km = set km'" by (simp add: map_of_inject_set)
  moreover from assms(1,2) have "distinct km" "distinct km'" by (simp_all add: distinct_map)
  ultimately have "mset km = mset km'" by (simp add: set_eq_iff_mset_eq_distinct)
  then have "mset (sort km') = mset km" by simp
  then show ?thesis by (rule properties_for_sort) simp
qed

lemma canon_subset:
  assumes "wf_candidates c" "wf_candidates c'" "candidate_mapping c = candidate_mapping c'"
  shows "(\<lambda>e. (fst e, sort (snd e))) ` set c \<subseteq> (\<lambda>e. (fst e, sort (snd e))) ` set c'"
proof
  fix x assume "x \<in> (\<lambda>e. (fst e, sort (snd e))) ` set c"
  then obtain vid km where e: "(vid, km) \<in> set c" and x: "x = (vid, sort km)" by auto
  from assms(1) e have m: "map_of c vid = Some km" and dk: "distinct (map fst km)"
    unfolding wf_candidates_def by auto
  from assms(3) have "candidate_mapping c vid = candidate_mapping c' vid" by simp
  with m obtain km' where m': "map_of c' vid = Some km'" and eq: "map_of km = map_of km'"
    by (cases "map_of c' vid") (auto simp: candidate_mapping_def)
  from m' have e': "(vid, km') \<in> set c'" by (rule map_of_SomeD)
  with assms(2) have "distinct (map fst km')" unfolding wf_candidates_def by auto
  from sort_eq_of_map_of_eq[OF dk this eq] have "x = (vid, sort km')" by (simp add: x)
  with e' show "x \<in> (\<lambda>e. (fst e, sort (snd e))) ` set c'" by force
qed

lemma distinct_map_inj_on: "distinct (map f zs) \<Longrightarrow> inj_on f (set zs)"
  by (simp add: distinct_map)

text \<open>The tables depend on the candidates only as a mapping, not on the insertion order.\<close>

lemma write_tables_mapping_cong:
  assumes "wf_candidates c" "wf_candidates c'" "candidate_mapping c = candidate_mapping c'"
  shows "write_tables c = write_tables c'"
proof -
  let ?g = "\<lambda>e::int \<times> key_map. (fst e, sort (snd e))"
  let ?xs = "map ?g (sort_key fst c)" and ?ys = "map ?g (sort_key fst c')"
  from assms(1,2) have d: "distinct (map fst c)" and d': "distinct (map fst c')"
    unfolding wf_candidates_def by simp_all
  have fx: "map fst ?xs = map fst (sort_key fst c)" and fy: "map fst ?ys = map fst (sort_key fst c')"
    by (simp_all add: comp_def)
  have sx: "sorted (map fst ?xs)" and sy: "sorted (map fst ?ys)"
    unfolding fx fy by (rule sorted_sort_key)+
  have dx: "distinct (map fst ?xs)" and dy: "distinct (map fst ?ys)"
    unfolding fx fy using sorted_entries(2)[OF d] sorted_entries(2)[OF d'] by simp_all
  have "?g ` set c = ?g ` set c'"
    using canon_subset[OF assms] canon_subset[OF assms(2,1) assms(3)[symmetric]]
    by (rule equalityI)
  then have se: "set ?xs = set ?ys" by simp
  from dx have "inj_on fst (set ?xs)" by (rule distinct_map_inj_on)
  with se have "inj_on fst (set ?xs \<union> set ?ys)" by simp
  from map_sorted_distinct_set_unique[OF this sx dx sy dy se]
  have "?xs = ?ys" .
  then show ?thesis unfolding write_tables_canon by simp
qed

text \<open>
  The two tables are the same for any reordering of the rows.
\<close>

lemma resolve_row_order_invariant:
  assumes "mset rows' = mset rows"
  shows "resolve ids asm rows' = resolve ids asm rows"
proof -
  from assms have "set rows' = set rows" by (rule mset_eq_setD)
  then have k: "set (kept_triples ids asm rows') = set (kept_triples ids asm rows)"
    by (rule kept_triples_set_cong)
  let ?c = "candidates (scan_rows ids asm scan_init rows)"
  let ?c' = "candidates (scan_rows ids asm scan_init rows')"
  have h: "holds_exactly ?c (set (kept_triples ids asm rows))"
    and h': "holds_exactly ?c' (set (kept_triples ids asm rows))"
    using scan_holds_exactly[of ids asm rows] scan_holds_exactly[of ids asm rows'] k by simp_all
  from h h' have "wf_candidates ?c" "wf_candidates ?c'" unfolding holds_exactly_def by simp_all
  moreover from h' h have "candidate_mapping ?c' = candidate_mapping ?c"
    by (rule holds_exactly_mapping_eq)
  ultimately show ?thesis
    unfolding resolve_def by (intro write_tables_mapping_cong) simp_all
qed

section \<open>The reader of the identifiers\<close>

lemma add_id_skipped: "skipped_record obj \<Longrightarrow> add_id ids obj = ids"
  by (auto simp: skipped_record_def add_id_def split: pyobj.splits option.splits)

lemma add_id_finite: "finite ids \<Longrightarrow> finite (add_id ids obj)"
  by (auto simp: add_id_def split: pyobj.splits option.splits)

lemma add_id_card: "finite ids \<Longrightarrow> card (add_id ids obj) \<le> Suc (card ids)"
  by (auto simp: add_id_def card_insert_if split: pyobj.splits option.splits)

lemma read_ids_full: "\<not> int (card ids) < max_ids \<Longrightarrow> read_ids max_ids ids stream = Inr ids"
  by (cases stream) simp_all

lemma read_ids_bound:
  assumes "finite ids0" "read_ids max_ids ids0 stream = Inr ids"
  shows "finite ids \<and> int (card ids) \<le> max (int (card ids0)) max_ids"
  using assms
proof (induction stream arbitrary: ids0)
  case Nil
  then show ?case by simp
next
  case (Cons ev rest)
  show ?case
  proof (cases "int (card ids0) < max_ids")
    case False
    with Cons.prems show ?thesis by simp
  next
    case True
    with Cons.prems(2) obtain obj where ev: "ev = Loaded obj"
      and r: "read_ids max_ids (add_id ids0 obj) rest = Inr ids"
      by (cases ev) simp_all
    from Cons.IH[OF add_id_finite[OF Cons.prems(1)] r]
    have f: "finite ids" and b: "int (card ids) \<le> max (int (card (add_id ids0 obj))) max_ids"
      by simp_all
    from add_id_card[OF Cons.prems(1), of obj] True
    have "int (card (add_id ids0 obj)) \<le> max_ids" by simp
    with b f show ?thesis by simp
  qed
qed

lemma read_ids_skip:
  assumes "skipped_record obj"
  shows "read_ids max_ids ids0 (pre @ Loaded obj # rest) = read_ids max_ids ids0 (pre @ rest)"
proof (induction pre arbitrary: ids0)
  case Nil
  show ?case
  proof (cases "int (card ids0) < max_ids")
    case True
    then show ?thesis by (simp add: add_id_skipped[OF assms])
  next
    case False
    then show ?thesis by (simp add: read_ids_full)
  qed
next
  case (Cons ev pre)
  show ?case by (cases ev) (simp_all add: Cons.IH)
qed

lemma read_ids_total:
  assumes "LoadFails \<notin> set stream"
  shows "\<exists>ids. read_ids max_ids ids0 stream = Inr ids"
  using assms
proof (induction stream arbitrary: ids0)
  case Nil
  show ?case by simp
next
  case (Cons ev rest)
  then obtain obj where "ev = Loaded obj" by (cases ev) auto
  with Cons show ?case by simp
qed

text \<open>
  C8.  For a maximum count (a number that is not negative), the reader returns a finite
  set of integers whose size is at most that count.  A record that is not a key-value
  mapping, or lacks the \<open>ID\<close> field, or whose \<open>ID\<close> value cannot be coerced to an integer is
  skipped: anywhere in any stream, the reader returns what it returns without that
  record.  On a stream of records, whatever they are, the reader returns a set and no
  error; and at the end of the stream it returns the set collected so far.
\<close>

theorem read_ids_bounded_tolerant:
  "(0 \<le> max_ids \<and> read_ids max_ids {} stream = Inr ids \<longrightarrow>
        finite ids \<and> int (card ids) \<le> max_ids)
   \<and> (skipped_record obj \<longrightarrow>
        read_ids max_ids ids0 (pre @ Loaded obj # rest) = read_ids max_ids ids0 (pre @ rest))
   \<and> (LoadFails \<notin> set stream \<longrightarrow> (\<exists>ids'. read_ids max_ids ids0 stream = Inr ids'))
   \<and> read_ids max_ids ids0 [] = Inr ids0"
  using read_ids_bound[of "{}" max_ids stream ids] read_ids_skip[of obj max_ids ids0 pre rest]
    read_ids_total[of stream max_ids ids0]
  by auto

theorem read_ids_bounded_tolerant_witness:
  "(0::int) \<le> 2 \<and> read_ids 2 {} pkl_example = Inr {10, 20}
   \<and> finite {10, 20 :: int} \<and> int (card {10, 20 :: int}) \<le> 2
   \<and> skipped_record PNotDict
   \<and> skipped_record (PDict [(VStr (str ''name''), VStr (str ''x''))])
   \<and> skipped_record (PDict [(VStr (str ''ID''), VStr (str ''rs30''))])
   \<and> read_ids 2 {} ([Loaded (PDict [(VStr (str ''ID''), VInt 10)])] @ Loaded PNotDict
         # [Loaded (PDict [(VStr (str ''ID''), VInt 30)])]) =
       read_ids 2 {} ([Loaded (PDict [(VStr (str ''ID''), VInt 10)])]
         @ [Loaded (PDict [(VStr (str ''ID''), VInt 30)])])
   \<and> LoadFails \<notin> set pkl_example
   \<and> read_ids 50000 {} pkl_example = Inr {10, 20, 30}
   \<and> read_ids 2 {} [] = Inr {}"
proof -
  have r: "read_ids 2 {} pkl_example = Inr {10, 20}" by code_simp
  have r': "read_ids 50000 {} pkl_example = Inr {10, 20, 30}" by code_simp
  have s: "skipped_record PNotDict" by (simp add: skipped_record_def)
  have s': "skipped_record (PDict [(VStr (str ''name''), VStr (str ''x''))])"
    "skipped_record (PDict [(VStr (str ''ID''), VStr (str ''rs30''))])"
    by code_simp+
  have l: "LoadFails \<notin> set pkl_example" by (simp add: pkl_example_def)
  from read_ids_bounded_tolerant[of 2 pkl_example "{10, 20}" PNotDict "{}"
      "[Loaded (PDict [(VStr (str ''ID''), VInt 10)])]"
      "[Loaded (PDict [(VStr (str ''ID''), VInt 30)])]"] r r' s s' l
  show ?thesis by simp
qed

end
